theory Spec2Isabelle
  imports Complex_Main "HOL-Library.Sublist"
begin

section \<open>Floating-point arithmetic\<close>

text \<open>
  The program computes with Python floats. Their operations are parameters of the model,
  collected in a record over an arbitrary type \<open>'f\<close> of float values, so that every
  definition below computes with whatever the interpreter's arithmetic returns, rounding
  and special values included, and every theorem holds for it. The operations the
  source uses:
  \<^item> \<open>fl_lit\<close>: the float a literal of the source denotes (\<open>-16.69\<close>);
  \<open>fl_zero\<close>: the float that the integer \<open>0\<close> becomes in mixed arithmetic;
  \<^item> \<open>fl_sub\<close>, \<open>fl_add\<close>: \<open>x - y\<close> and \<open>x + y\<close>, which never raise;
  \<^item> \<open>fl_square\<close>: \<open>x ** 2\<close>, which raises \<open>OverflowError\<close> when the result leaves
    the float range (\<open>None\<close>);
  \<^item> \<open>fl_root\<close>: \<open>x ** (1/2)\<close>;
  \<^item> \<open>fl_less\<close>: \<open>x < y\<close>.
  Where a theorem needs a law of the arithmetic it is a hypothesis of that theorem.
\<close>

record 'f float_ops =
  fl_lit :: "real \<Rightarrow> 'f"
  fl_zero :: 'f
  fl_sub :: "'f \<Rightarrow> 'f \<Rightarrow> 'f"
  fl_add :: "'f \<Rightarrow> 'f \<Rightarrow> 'f"
  fl_square :: "'f \<Rightarrow> 'f option"
  fl_root :: "'f \<Rightarrow> 'f"
  fl_less :: "'f \<Rightarrow> 'f \<Rightarrow> bool"

text \<open>
  The comparison of floats is irreflexive and transitive for all floats, NaN included
  (a comparison with NaN is false).
\<close>

definition float_order :: "'f float_ops \<Rightarrow> bool" where
  "float_order ops = (irreflp (fl_less ops) \<and> transp (fl_less ops))"

text \<open>
  The square of \<open>x - x\<close> never raises: the difference is zero, or NaN when \<open>x\<close> is
  infinite or NaN, and the square of either is that value again.
\<close>

definition self_difference_squares :: "'f float_ops \<Rightarrow> bool" where
  "self_difference_squares ops = (\<forall>x. fl_square ops (fl_sub ops x x) \<noteq> None)"

text \<open>
  One arithmetic for the examples: floats as the real numbers they denote, every result
  exact, a square raising when it reaches \<open>2 ^ 1024\<close>. It is the interpreter's
  arithmetic wherever every intermediate result is itself a float, as with the small
  whole-number coordinates of the example graphs below, on which every counterexample is
  computed. On \<open>Map\<close>, whose coordinates are decimal fractions, it is an idealisation
  and serves only to show that the hypotheses of a theorem can be met together.
\<close>

definition exact_ops :: "real float_ops" where
  "exact_ops =
     \<lparr>fl_lit = (\<lambda>x. x), fl_zero = 0, fl_sub = (\<lambda>x y. x - y), fl_add = (\<lambda>x y. x + y),
      fl_square = (\<lambda>x. if x\<^sup>2 < 2 ^ 1024 then Some (x\<^sup>2) else None),
      fl_root = sqrt, fl_less = (\<lambda>x y. x < y)\<rparr>"

section \<open>The data model of GPS-BestFirst.py\<close>

text \<open>Class \<open>City\<close>: the property \<open>id\<close> is the field \<open>city_id\<close> here.\<close>

record 'f City =
  city_id :: string
  latitude :: 'f
  longitude :: 'f
  neighbours :: "string list"

text \<open>
  Class \<open>Map\<close> is an \<open>enum.Enum\<close> whose members are cities. Its two functions read the
  enumeration only, through iteration in definition order (\<open>for city in Map\<close>) and through
  lookup by member name (\<open>Map[name]\<close>). An enumeration is therefore the list of its
  members, each a pair of member name and value, in definition order; the functions take
  it as an argument. (In an \<open>Enum\<close> the names are distinct, and a member whose
  value equals an earlier one, here a city with the same id, is an alias that iteration
  skips; the list holds the members proper. No theorem below depends on it.) The members
  of \<open>Map\<close> are the nine cities below.
\<close>

type_synonym 'f enum_members = "(string \<times> 'f City) list"

definition Goiania :: "'f float_ops \<Rightarrow> 'f City" where
  "Goiania ops =
     \<lparr>city_id = ''Goiania'', latitude = fl_lit ops (-16.69), longitude = fl_lit ops (-49.25),
      neighbours = [''Hidrolandia'', ''BelaVista'']\<rparr>"

definition Hidrolandia :: "'f float_ops \<Rightarrow> 'f City" where
  "Hidrolandia ops =
     \<lparr>city_id = ''Hidrolandia'', latitude = fl_lit ops (-16.97),
      longitude = fl_lit ops (-49.22),
      neighbours = [''Goiania'', ''ProfJamil'', ''BelaVista'']\<rparr>"

definition BelaVista :: "'f float_ops \<Rightarrow> 'f City" where
  "BelaVista ops =
     \<lparr>city_id = ''BelaVista'', latitude = fl_lit ops (-16.97), longitude = fl_lit ops (-48.97),
      neighbours = [''Goiania'', ''Hidrolandia'', ''Piracanjuba'', ''Cristianopolis'']\<rparr>"

definition ProfJamil :: "'f float_ops \<Rightarrow> 'f City" where
  "ProfJamil ops =
     \<lparr>city_id = ''ProfJamil'', latitude = fl_lit ops (-17.25), longitude = fl_lit ops (-49.25),
      neighbours = [''Hidrolandia'', ''Morrinhos'', ''Piracanjuba'']\<rparr>"

definition Cristianopolis :: "'f float_ops \<Rightarrow> 'f City" where
  "Cristianopolis ops =
     \<lparr>city_id = ''Cristianopolis'', latitude = fl_lit ops (-17.19),
      longitude = fl_lit ops (-48.70),
      neighbours = [''BelaVista'', ''Piracanjuba'', ''CaldasNovas'']\<rparr>"

definition Piracanjuba :: "'f float_ops \<Rightarrow> 'f City" where
  "Piracanjuba ops =
     \<lparr>city_id = ''Piracanjuba'', latitude = fl_lit ops (-17.30),
      longitude = fl_lit ops (-49.02),
      neighbours = [''BelaVista'', ''ProfJamil'', ''CaldasNovas'', ''Cristianopolis'',
        ''Formiga'']\<rparr>"

definition Formiga :: "'f float_ops \<Rightarrow> 'f City" where
  "Formiga ops =
     \<lparr>city_id = ''Formiga'', latitude = fl_lit ops (-17.65), longitude = fl_lit ops (-49.08),
      neighbours = [''Piracanjuba'']\<rparr>"

definition Morrinhos :: "'f float_ops \<Rightarrow> 'f City" where
  "Morrinhos ops =
     \<lparr>city_id = ''Morrinhos'', latitude = fl_lit ops (-17.73), longitude = fl_lit ops (-49.12),
      neighbours = [''ProfJamil'', ''CaldasNovas'']\<rparr>"

definition CaldasNovas :: "'f float_ops \<Rightarrow> 'f City" where
  "CaldasNovas ops =
     \<lparr>city_id = ''CaldasNovas'', latitude = fl_lit ops (-17.74),
      longitude = fl_lit ops (-48.62),
      neighbours = [''Cristianopolis'', ''Piracanjuba'', ''Morrinhos'']\<rparr>"

definition Map :: "'f float_ops \<Rightarrow> 'f enum_members" where
  "Map ops =
    [(''Goiania'', Goiania ops),
     (''Hidrolandia'', Hidrolandia ops),
     (''BelaVista'', BelaVista ops),
     (''ProfJamil'', ProfJamil ops),
     (''Cristianopolis'', Cristianopolis ops),
     (''Piracanjuba'', Piracanjuba ops),
     (''Formiga'', Formiga ops),
     (''Morrinhos'', Morrinhos ops),
     (''CaldasNovas'', CaldasNovas ops)]"

text \<open>
  The exceptions the code can raise: \<open>KeyError\<close> from \<open>Map[name]\<close> on a name that is no
  member, \<open>IndexError\<close> from \<open>cities_ids[-1]\<close> and \<open>pop(-1)\<close> on an empty list,
  \<open>OverflowError\<close> from \<open>x ** 2\<close>.
\<close>

datatype error = KeyError string | IndexError | OverflowError

text \<open>\<open>Map.get_neighbours\<close>: the first member whose city has the id, else the empty list.\<close>

fun get_neighbours :: "'f enum_members \<Rightarrow> string \<Rightarrow> string list" where
  "get_neighbours [] k = []"
| "get_neighbours ((name, city) # rest) k =
     (if city_id city = k then neighbours city else get_neighbours rest k)"

text \<open>\<open>Map[name].value\<close>: lookup by member name, raising \<open>KeyError\<close>.\<close>

definition getitem :: "'f enum_members \<Rightarrow> string \<Rightarrow> error + 'f City" where
  "getitem ms name = (case map_of ms name of None \<Rightarrow> Inl (KeyError name) | Some c \<Rightarrow> Inr c)"

text \<open>
  \<open>Map.calc_cartesian_distance\<close>: both lookups first, then the left square, the right
  square, their sum and its root, in the order Python evaluates the expression of line 124.
\<close>

definition calc_cartesian_distance ::
  "'f float_ops \<Rightarrow> 'f enum_members \<Rightarrow> string \<Rightarrow> string \<Rightarrow> error + 'f" where
  "calc_cartesian_distance ops ms id_a id_b =
     (case getitem ms id_a of
        Inl e \<Rightarrow> Inl e
      | Inr cityA \<Rightarrow>
          (case getitem ms id_b of
             Inl e \<Rightarrow> Inl e
           | Inr cityB \<Rightarrow>
               (case fl_square ops (fl_sub ops (latitude cityA) (latitude cityB)) of
                  None \<Rightarrow> Inl OverflowError
                | Some lat2 \<Rightarrow>
                    (case fl_square ops (fl_sub ops (longitude cityA) (longitude cityB)) of
                       None \<Rightarrow> Inl OverflowError
                     | Some lon2 \<Rightarrow> Inr (fl_root ops (fl_add ops lat2 lon2))))))"

text \<open>Class \<open>Route\<close>; \<open>heuristic\<close> is the float sum \<open>self.cost + self.evaluation\<close>.\<close>

record 'f Route =
  cities_ids :: "string list"
  cost :: 'f
  evaluation :: 'f

definition heuristic :: "'f float_ops \<Rightarrow> 'f Route \<Rightarrow> 'f" where
  "heuristic ops r = fl_add ops (cost r) (evaluation r)"

definition last_city_id :: "'f Route \<Rightarrow> error + string" where
  "last_city_id r = (if cities_ids r = [] then Inl IndexError else Inr (last (cities_ids r)))"

section \<open>The search engine\<close>

text \<open>
  Class \<open>GPSGreedyBestFirst\<close>. Its field \<open>__map\<close> is stored by the constructor and never
  read (the methods name the global \<open>Map\<close>), so the state is the fringe and the visited
  list; the enumeration is the explicit argument \<open>ms\<close> of every operation.
\<close>

record 'f GPSGreedyBestFirst =
  fringe :: "'f Route list"
  visited :: "string list"

text \<open>\<open>__init__\<close>.\<close>

definition init :: "'f GPSGreedyBestFirst" where
  "init = \<lparr>fringe = [], visited = []\<rparr>"

text \<open>\<open>next_route\<close>: \<open>pop(-1)\<close>.\<close>

definition next_route ::
  "'f GPSGreedyBestFirst \<Rightarrow> error + ('f Route \<times> 'f GPSGreedyBestFirst)" where
  "next_route s =
     (if fringe s = [] then Inl IndexError
      else Inr (last (fringe s), s\<lparr>fringe := butlast (fringe s)\<rparr>))"

text \<open>
  \<open>add_route\<close>: the \<open>for ... else\<close> over the fringe. \<open>insert_scan\<close> is the loop on the
  list: at the first \<open>curr_route\<close> with \<open>curr_route.heuristic < route.heuristic\<close> the
  route is inserted at that index and the loop breaks; when the loop runs out the route
  is appended.
\<close>

fun insert_scan :: "'f float_ops \<Rightarrow> 'f Route list \<Rightarrow> 'f Route \<Rightarrow> 'f Route list" where
  "insert_scan ops [] route = [route]"
| "insert_scan ops (curr_route # rest) route =
     (if fl_less ops (heuristic ops curr_route) (heuristic ops route)
      then route # curr_route # rest
      else curr_route # insert_scan ops rest route)"

definition add_route ::
  "'f float_ops \<Rightarrow> 'f GPSGreedyBestFirst \<Rightarrow> 'f Route \<Rightarrow> 'f GPSGreedyBestFirst" where
  "add_route ops s route = s\<lparr>fringe := insert_scan ops (fringe s) route\<rparr>"

text \<open>
  \<open>add_routes_for_neighbours\<close>: \<open>neighbours_loop\<close> is the \<open>for neighbour_id in ...\<close> loop,
  \<open>last_id\<close> the value of \<open>route.last_city_id\<close>. An exception leaves the state as it is
  at that moment.
\<close>

fun neighbours_loop ::
  "'f float_ops \<Rightarrow> 'f enum_members \<Rightarrow> 'f Route \<Rightarrow> string \<Rightarrow> 'f City \<Rightarrow> string list
     \<Rightarrow> 'f GPSGreedyBestFirst \<Rightarrow> (error + unit) \<times> 'f GPSGreedyBestFirst" where
  "neighbours_loop ops ms route last_id destination [] s = (Inr (), s)"
| "neighbours_loop ops ms route last_id destination (neighbour_id # rest) s =
     (if neighbour_id \<in> set (visited s)
      then neighbours_loop ops ms route last_id destination rest s
      else
        (case calc_cartesian_distance ops ms last_id neighbour_id of
           Inl e \<Rightarrow> (Inl e, s)
         | Inr distance_from_last_city \<Rightarrow>
             (case calc_cartesian_distance ops ms (city_id destination) neighbour_id of
                Inl e \<Rightarrow> (Inl e, s)
              | Inr distance_to_destination \<Rightarrow>
                  neighbours_loop ops ms route last_id destination rest
                    (add_route ops s
                       \<lparr>cities_ids = cities_ids route @ [neighbour_id],
                        cost = fl_add ops distance_from_last_city (cost route),
                        evaluation = distance_to_destination\<rparr>))))"

definition add_routes_for_neighbours ::
  "'f float_ops \<Rightarrow> 'f enum_members \<Rightarrow> 'f GPSGreedyBestFirst \<Rightarrow> 'f Route \<Rightarrow> 'f City
     \<Rightarrow> (error + unit) \<times> 'f GPSGreedyBestFirst" where
  "add_routes_for_neighbours ops ms s route destination =
     (case last_city_id route of
        Inl e \<Rightarrow> (Inl e, s)
      | Inr last_id \<Rightarrow>
          neighbours_loop ops ms route last_id destination (get_neighbours ms last_id) s)"

text \<open>
  One turn of the \<open>while self.__fringe\<close> loop of \<open>search\<close>: either the call returns
  (a route, \<open>None\<close> or an exception) or the loop goes on with a new state.
\<close>

datatype 'f turn =
  Return "error + 'f Route option" "'f GPSGreedyBestFirst"
| Continue "'f GPSGreedyBestFirst"

definition search_turn ::
  "'f float_ops \<Rightarrow> 'f enum_members \<Rightarrow> 'f City \<Rightarrow> 'f GPSGreedyBestFirst \<Rightarrow> 'f turn" where
  "search_turn ops ms destination s =
     (if fringe s = [] then Return (Inr None) s
      else
        (case next_route s of
           Inl e \<Rightarrow> Return (Inl e) s
         | Inr (curr_route, s1) \<Rightarrow>
             (case last_city_id curr_route of
                Inl e \<Rightarrow> Return (Inl e) s1
              | Inr last_id \<Rightarrow>
                  if last_id = city_id destination then Return (Inr (Some curr_route)) s1
                  else
                    (case add_routes_for_neighbours ops ms
                            (s1\<lparr>visited := visited s1 @ [last_id]\<rparr>) curr_route destination of
                       (Inl e, s3) \<Rightarrow> Return (Inl e) s3
                     | (Inr u, s3) \<Rightarrow> Continue s3))))"

text \<open>The loop, as a total function: its termination is proved below.\<close>

function search_loop ::
  "'f float_ops \<Rightarrow> 'f enum_members \<Rightarrow> 'f City \<Rightarrow> 'f GPSGreedyBestFirst
     \<Rightarrow> (error + 'f Route option) \<times> 'f GPSGreedyBestFirst" where
  "search_loop ops ms destination s =
     (case search_turn ops ms destination s of
        Return res s' \<Rightarrow> (res, s')
      | Continue s' \<Rightarrow> search_loop ops ms destination s')"
  by pat_completeness auto

text \<open>
  The loop with a bound on the number of routes it may pop: \<open>None\<close> when the bound is
  reached before the call returns. The loop test on an empty fringe pops nothing and
  costs nothing.
\<close>

fun search_loop_within ::
  "nat \<Rightarrow> 'f float_ops \<Rightarrow> 'f enum_members \<Rightarrow> 'f City \<Rightarrow> 'f GPSGreedyBestFirst
     \<Rightarrow> ((error + 'f Route option) \<times> 'f GPSGreedyBestFirst) option" where
  "search_loop_within n ops ms destination s =
     (if fringe s = [] then Some (Inr None, s)
      else
        (case n of
           0 \<Rightarrow> None
         | Suc k \<Rightarrow>
             (case search_turn ops ms destination s of
                Return res s' \<Rightarrow> Some (res, s')
              | Continue s' \<Rightarrow> search_loop_within k ops ms destination s')))"

text \<open>
  \<open>search\<close>: the first distance, the first route (its cost is the integer \<open>0\<close>), then the
  loop. The engine is used as the caller left it, and the result comes with the state the
  call leaves behind.
\<close>

definition search ::
  "'f float_ops \<Rightarrow> 'f enum_members \<Rightarrow> 'f GPSGreedyBestFirst \<Rightarrow> 'f City \<Rightarrow> 'f City
     \<Rightarrow> (error + 'f Route option) \<times> 'f GPSGreedyBestFirst" where
  "search ops ms s origin destination =
     (case calc_cartesian_distance ops ms (city_id origin) (city_id destination) of
        Inl e \<Rightarrow> (Inl e, s)
      | Inr distance_to_destination \<Rightarrow>
          search_loop ops ms destination
            (add_route ops s \<lparr>cities_ids = [city_id origin], cost = fl_zero ops,
                              evaluation = distance_to_destination\<rparr>))"

definition search_within ::
  "nat \<Rightarrow> 'f float_ops \<Rightarrow> 'f enum_members \<Rightarrow> 'f GPSGreedyBestFirst \<Rightarrow> 'f City \<Rightarrow> 'f City
     \<Rightarrow> ((error + 'f Route option) \<times> 'f GPSGreedyBestFirst) option" where
  "search_within n ops ms s origin destination =
     (case calc_cartesian_distance ops ms (city_id origin) (city_id destination) of
        Inl e \<Rightarrow> Some (Inl e, s)
      | Inr distance_to_destination \<Rightarrow>
          search_loop_within n ops ms destination
            (add_route ops s \<lparr>cities_ids = [city_id origin], cost = fl_zero ops,
                              evaluation = distance_to_destination\<rparr>))"

section \<open>Auxiliary notions for the properties\<close>

text \<open>
  The insertion rule in the words of the specification (not taken from the code): scan
  from index 0 and insert immediately before the first element whose score is strictly
  greater than the new route's score; append when there is none.
\<close>

fun insert_before_first_greater ::
  "'f float_ops \<Rightarrow> 'f Route list \<Rightarrow> 'f Route \<Rightarrow> 'f Route list" where
  "insert_before_first_greater ops [] route = [route]"
| "insert_before_first_greater ops (x # xs) route =
     (if fl_less ops (heuristic ops route) (heuristic ops x) then route # x # xs
      else x # insert_before_first_greater ops xs route)"

text \<open>
  A fringe in non-increasing order of score, in terms of the comparison the code makes:
  no route has a strictly smaller score than a route behind it.
\<close>

definition fringe_sorted :: "'f float_ops \<Rightarrow> 'f Route list \<Rightarrow> bool" where
  "fringe_sorted ops f =
     sorted_wrt (\<lambda>a b. \<not> fl_less ops (heuristic ops a) (heuristic ops b)) f"

text \<open>
  The key a route ends in (\<open>target\<close> is total and used for counting only; \<open>ends_in\<close>
  follows \<open>last_city_id\<close>, so no key is the end of a route without cities).
\<close>

definition target :: "'f Route \<Rightarrow> string" where
  "target r = last (cities_ids r)"

definition ends_in :: "string \<Rightarrow> 'f Route \<Rightarrow> bool" where
  "ends_in k r = (last_city_id r = Inr k)"

text \<open>
  What the termination argument counts: the keys that occur in some neighbour list, the
  keys that can still enter the visited list for the first time, and the routes of the
  fringe that end in a visited key.
\<close>

definition neighbour_keys :: "'f enum_members \<Rightarrow> string set" where
  "neighbour_keys ms = (\<Union>c \<in> snd ` set ms. set (neighbours c))"

definition open_keys :: "'f enum_members \<Rightarrow> 'f GPSGreedyBestFirst \<Rightarrow> nat" where
  "open_keys ms s = card ((neighbour_keys ms \<union> target ` set (fringe s)) - set (visited s))"

definition stale_routes :: "'f GPSGreedyBestFirst \<Rightarrow> nat" where
  "stale_routes s = length (filter (\<lambda>r. target r \<in> set (visited s)) (fringe s))"

text \<open>
  The state a turn of the loop leaves behind, and the relation "one full turn of the loop
  leads from \<open>s\<close> to \<open>s'\<close>".
\<close>

definition turn_state :: "'f turn \<Rightarrow> 'f GPSGreedyBestFirst" where
  "turn_state t = (case t of Return res s \<Rightarrow> s | Continue s \<Rightarrow> s)"

definition turn_step ::
  "'f float_ops \<Rightarrow> 'f enum_members \<Rightarrow> 'f City \<Rightarrow> 'f GPSGreedyBestFirst
     \<Rightarrow> 'f GPSGreedyBestFirst \<Rightarrow> bool" where
  "turn_step ops ms destination s s' = (search_turn ops ms destination s = Continue s')"

text \<open>
  Reachability over neighbour links, as \<open>get_neighbours\<close> reports them; graphs in
  which every neighbour key is the name of a member; and graphs in which the distance
  between any two members is computed without an exception (no square overflows).
\<close>

definition reachable :: "'f enum_members \<Rightarrow> string \<Rightarrow> string set" where
  "reachable ms a = {b. (a, b) \<in> {(x, y). y \<in> set (get_neighbours ms x)}\<^sup>*}"

definition keys_closed :: "'f enum_members \<Rightarrow> bool" where
  "keys_closed ms = (\<forall>c \<in> snd ` set ms. set (neighbours c) \<subseteq> fst ` set ms)"

definition distances_defined :: "'f float_ops \<Rightarrow> 'f enum_members \<Rightarrow> bool" where
  "distances_defined ops ms =
     (\<forall>a \<in> fst ` set ms. \<forall>b \<in> fst ` set ms. \<exists>x. calc_cartesian_distance ops ms a b = Inr x)"

text \<open>
  The invariant of the loop used for the unreachable case: every route of the fringe has
  cities and ends in a key reachable from the origin \<open>a\<close>, every visited key is
  reachable, and the origin and all neighbours of visited keys are visited or the end of
  a route in the fringe.
\<close>

definition search_inv :: "'f enum_members \<Rightarrow> string \<Rightarrow> 'f GPSGreedyBestFirst \<Rightarrow> bool" where
  "search_inv ms a s =
     ((\<forall>r \<in> set (fringe s). cities_ids r \<noteq> [] \<and> target r \<in> reachable ms a)
      \<and> set (visited s) \<subseteq> reachable ms a
      \<and> a \<in> set (visited s) \<union> target ` set (fringe s)
      \<and> (\<forall>v \<in> set (visited s).
            set (get_neighbours ms v) \<subseteq> set (visited s) \<union> target ` set (fringe s)))"

text \<open>
  Small graphs for the examples, with whole-number coordinates, on which every distance
  the search computes is a whole number and \<open>exact_ops\<close> is the arithmetic of the
  interpreter. In \<open>clique_map\<close> four cities on a line are all neighbours of each other
  and a fifth, \<open>Z\<close>, has no links. In \<open>line_map\<close> the city \<open>N\<close> lies on the segment from
  \<open>A\<close> to \<open>B\<close>. In \<open>triangle_map\<close> the cities \<open>G\<close>, \<open>K\<close> and \<open>H\<close> form a triangle with
  sides 3, 4 and 5. In \<open>far_map\<close> the city \<open>A\<close> lies at latitude \<open>2 ^ 600\<close>, a float.
\<close>

definition cityA :: "real City" where
  "cityA = \<lparr>city_id = ''A'', latitude = 0, longitude = 0, neighbours = [''B'', ''C'', ''E'']\<rparr>"

definition cityZ :: "real City" where
  "cityZ = \<lparr>city_id = ''Z'', latitude = 4, longitude = 0, neighbours = []\<rparr>"

definition clique_map :: "real enum_members" where
  "clique_map =
    [(''A'', cityA),
     (''B'', \<lparr>city_id = ''B'', latitude = 1, longitude = 0, neighbours = [''A'', ''C'', ''E'']\<rparr>),
     (''C'', \<lparr>city_id = ''C'', latitude = 2, longitude = 0, neighbours = [''A'', ''B'', ''E'']\<rparr>),
     (''E'', \<lparr>city_id = ''E'', latitude = 3, longitude = 0, neighbours = [''A'', ''B'', ''C'']\<rparr>),
     (''Z'', cityZ)]"

definition lineA :: "real City" where
  "lineA = \<lparr>city_id = ''A'', latitude = 0, longitude = 0, neighbours = [''B'', ''N'']\<rparr>"

definition lineB :: "real City" where
  "lineB = \<lparr>city_id = ''B'', latitude = 2, longitude = 0, neighbours = [''A'', ''N'']\<rparr>"

definition line_map :: "real enum_members" where
  "line_map =
    [(''A'', lineA),
     (''N'', \<lparr>city_id = ''N'', latitude = 1, longitude = 0, neighbours = [''A'', ''B'']\<rparr>),
     (''B'', lineB)]"

definition cityG :: "real City" where
  "cityG = \<lparr>city_id = ''G'', latitude = 0, longitude = 0, neighbours = [''K'', ''H'']\<rparr>"

definition cityH :: "real City" where
  "cityH = \<lparr>city_id = ''H'', latitude = 3, longitude = 4, neighbours = [''G'', ''K'']\<rparr>"

definition triangle_map :: "real enum_members" where
  "triangle_map =
    [(''G'', cityG),
     (''K'', \<lparr>city_id = ''K'', latitude = 3, longitude = 0, neighbours = [''G'', ''H'']\<rparr>),
     (''H'', cityH)]"

definition huge :: real where
  "huge = 2 ^ 600"

definition far_map :: "real enum_members" where
  "far_map =
    [(''A'', \<lparr>city_id = ''A'', latitude = huge, longitude = 0, neighbours = []\<rparr>),
     (''Z'', \<lparr>city_id = ''Z'', latitude = 0, longitude = 0, neighbours = []\<rparr>)]"

section \<open>Termination of the search loop\<close>

lemma set_insert_scan: "set (insert_scan ops f r) = insert r (set f)"
  by (induction f) auto

lemma filter_insert_scan_no: "\<not> P r \<Longrightarrow> filter P (insert_scan ops f r) = filter P f"
  by (induction f) auto

lemma get_neighbours_subset: "set (get_neighbours ms k) \<subseteq> neighbour_keys ms"
  by (induction ms) (auto simp: neighbour_keys_def split: if_splits)

lemma finite_neighbour_keys: "finite (neighbour_keys ms)"
  by (simp add: neighbour_keys_def)

lemma neighbours_loop_visited:
  "neighbours_loop ops ms route k d ns s = (res, s') \<Longrightarrow> visited s' = visited s"
  by (induction ns arbitrary: s) (auto simp: add_route_def split: if_splits sum.splits)

lemma neighbours_loop_targets:
  "neighbours_loop ops ms route k d ns s = (res, s') \<Longrightarrow>
     target ` set (fringe s') \<subseteq> target ` set (fringe s) \<union> set ns"
proof (induction ns arbitrary: s)
  case Nil
  then show ?case by simp
next
  case (Cons n ns)
  show ?case
  proof (cases "n \<in> set (visited s)")
    case True
    with Cons.prems have "neighbours_loop ops ms route k d ns s = (res, s')" by simp
    from Cons.IH[OF this] show ?thesis by auto
  next
    case False
    show ?thesis
    proof (cases "calc_cartesian_distance ops ms k n")
      case (Inl e)
      with False Cons.prems show ?thesis by auto
    next
      case dl: (Inr dl)
      show ?thesis
      proof (cases "calc_cartesian_distance ops ms (city_id d) n")
        case (Inl e)
        with False dl Cons.prems show ?thesis by auto
      next
        case (Inr dd)
        let ?r = "\<lparr>cities_ids = cities_ids route @ [n], cost = fl_add ops dl (cost route), evaluation = dd\<rparr>"
        from False dl Inr Cons.prems
        have "neighbours_loop ops ms route k d ns (add_route ops s ?r) = (res, s')" by simp
        from Cons.IH[OF this]
        have "target ` set (fringe s') \<subseteq> target ` set (fringe (add_route ops s ?r)) \<union> set ns" .
        moreover have "target ` set (fringe (add_route ops s ?r)) = insert n (target ` set (fringe s))"
          by (simp add: add_route_def set_insert_scan target_def)
        ultimately show ?thesis by auto
      qed
    qed
  qed
qed

lemma neighbours_loop_filter:
  "neighbours_loop ops ms route k d ns s = (res, s') \<Longrightarrow> (\<And>r. P r \<Longrightarrow> target r \<in> set (visited s))
     \<Longrightarrow> filter P (fringe s') = filter P (fringe s)"
proof (induction ns arbitrary: s)
  case Nil
  then show ?case by simp
next
  case (Cons n ns)
  show ?case
  proof (cases "n \<in> set (visited s)")
    case True
    with Cons.prems have "neighbours_loop ops ms route k d ns s = (res, s')" by simp
    from Cons.IH[OF this] Cons.prems(2) show ?thesis by blast
  next
    case False
    show ?thesis
    proof (cases "calc_cartesian_distance ops ms k n")
      case (Inl e)
      with False Cons.prems show ?thesis by auto
    next
      case dl: (Inr dl)
      show ?thesis
      proof (cases "calc_cartesian_distance ops ms (city_id d) n")
        case (Inl e)
        with False dl Cons.prems show ?thesis by auto
      next
        case (Inr dd)
        let ?r = "\<lparr>cities_ids = cities_ids route @ [n], cost = fl_add ops dl (cost route), evaluation = dd\<rparr>"
        from False dl Inr Cons.prems
        have run: "neighbours_loop ops ms route k d ns (add_route ops s ?r) = (res, s')" by simp
        have v: "visited (add_route ops s ?r) = visited s" by (simp add: add_route_def)
        have "\<not> P ?r" using Cons.prems(2)[of ?r] False by (auto simp: target_def)
        then have "filter P (fringe (add_route ops s ?r)) = filter P (fringe s)"
          by (simp add: add_route_def filter_insert_scan_no)
        moreover have "filter P (fringe s') = filter P (fringe (add_route ops s ?r))"
          using Cons.IH[OF run] Cons.prems(2) v by simp
        ultimately show ?thesis by simp
      qed
    qed
  qed
qed

lemma search_turn_Continue:
  assumes "search_turn ops ms d s = Continue s'"
  obtains k u where "fringe s \<noteq> []" "cities_ids (last (fringe s)) \<noteq> []"
    "k = target (last (fringe s))" "k \<noteq> city_id d"
    "neighbours_loop ops ms (last (fringe s)) k d (get_neighbours ms k)
       (s\<lparr>fringe := butlast (fringe s), visited := visited s @ [k]\<rparr>) = (Inr u, s')"
  using assms
  by (auto simp: search_turn_def next_route_def last_city_id_def add_routes_for_neighbours_def
        target_def split: if_splits sum.splits prod.splits)

lemma length_filter_butlast:
  "xs \<noteq> [] \<Longrightarrow> P (last xs) \<Longrightarrow> length (filter P (butlast xs)) < length (filter P xs)"
  by (induction xs) auto

lemma search_turn_decreases:
  assumes "search_turn ops ms d s = Continue s'"
  shows "open_keys ms s' < open_keys ms s
         \<or> (open_keys ms s' = open_keys ms s \<and> stale_routes s' < stale_routes s)"
proof -
  from assms obtain k u where ne: "fringe s \<noteq> []" and k: "k = target (last (fringe s))"
    and run: "neighbours_loop ops ms (last (fringe s)) k d (get_neighbours ms k)
       (s\<lparr>fringe := butlast (fringe s), visited := visited s @ [k]\<rparr>) = (Inr u, s')"
    by (rule search_turn_Continue)
  let ?s2 = "s\<lparr>fringe := butlast (fringe s), visited := visited s @ [k]\<rparr>"
  let ?A = "(neighbour_keys ms \<union> target ` set (fringe s)) - set (visited s)"
  let ?B = "(neighbour_keys ms \<union> target ` set (fringe s')) - set (visited s')"
  have v: "visited s' = visited s @ [k]"
    using neighbours_loop_visited[OF run] by simp
  have "target ` set (fringe s') \<subseteq> target ` set (butlast (fringe s)) \<union> set (get_neighbours ms k)"
    using neighbours_loop_targets[OF run] by simp
  have t: "target ` set (fringe s') \<subseteq> target ` set (fringe s) \<union> neighbour_keys ms"
  proof -
    have "set (butlast (fringe s)) \<subseteq> set (fringe s)" by (auto dest: in_set_butlastD)
    then have "target ` set (butlast (fringe s)) \<subseteq> target ` set (fringe s)" by (rule image_mono)
    with \<open>target ` set (fringe s') \<subseteq> target ` set (butlast (fringe s)) \<union> set (get_neighbours ms k)\<close>
      get_neighbours_subset[of ms k] show ?thesis by blast
  qed
  have kin: "k \<in> target ` set (fringe s)" using ne k by simp
  have fin: "finite ?A" by (simp add: finite_neighbour_keys)
  have sub: "?B \<subseteq> ?A" using t v by auto
  show ?thesis
  proof (cases "k \<in> set (visited s)")
    case False
    have "k \<in> ?A" "k \<notin> ?B" using kin False v by auto
    with sub have "?B \<subset> ?A" by auto
    with fin have "card ?B < card ?A" by (rule psubset_card_mono)
    then show ?thesis by (simp add: open_keys_def)
  next
    case True
    then have sv: "set (visited s') = set (visited s)" using v by auto
    have le: "open_keys ms s' \<le> open_keys ms s"
      unfolding open_keys_def using fin sub by (rule card_mono)
    have "filter (\<lambda>r. target r \<in> set (visited ?s2)) (fringe s')
          = filter (\<lambda>r. target r \<in> set (visited ?s2)) (fringe ?s2)"
      using neighbours_loop_filter [OF run, of "\<lambda>r. target r \<in> set (visited ?s2)"] by simp
    then have "filter (\<lambda>r. target r \<in> set (visited s)) (fringe s')
          = filter (\<lambda>r. target r \<in> set (visited s)) (butlast (fringe s))"
      using True by (simp add: insert_absorb)
    then have "stale_routes s' = length (filter (\<lambda>r. target r \<in> set (visited s)) (butlast (fringe s)))"
      by (simp add: stale_routes_def sv)
    also have "\<dots> < stale_routes s"
      unfolding stale_routes_def using ne True k by (intro length_filter_butlast) auto
    finally show ?thesis using le by linarith
  qed
qed

termination search_loop
proof (relation "measures [\<lambda>(ops, ms, d, s). open_keys ms s, \<lambda>(ops, ms, d, s). stale_routes s]")
  show "wf (measures [\<lambda>(ops, ms, d, s). open_keys ms s, \<lambda>(ops, ms, d, s). stale_routes s])" by simp
next
  fix ops :: "'a float_ops" and ms d s s'
  assume "search_turn ops ms d s = Continue s'"
  from search_turn_decreases[OF this]
  show "((ops, ms, d, s'), (ops, ms, d, s)) \<in> measures [\<lambda>(ops, ms, d, s). open_keys ms s, \<lambda>(ops, ms, d, s). stale_routes s]"
    by auto
qed

declare search_loop.simps [simp del]

declare search_loop_within.simps [simp del]

text \<open>The bounded loop agrees with the loop once the bound is large enough.\<close>

lemma search_within_total:
  "\<exists>n. search_loop_within n ops ms d s = Some (search_loop ops ms d s)"
proof (induction ops ms d s rule: search_loop.induct)
  case (1 ops ms d s)
  show ?case
  proof (cases "search_turn ops ms d s")
    case (Return res s')
    then have "search_loop_within 1 ops ms d s = Some (search_loop ops ms d s)"
      by (auto simp: search_loop.simps[of ops ms d s] search_loop_within.simps[of _ ops ms d s]
          search_turn_def)
    then show ?thesis ..
  next
    case (Continue s')
    from "1.IH"[OF this] obtain n where
      "search_loop_within n ops ms d s' = Some (search_loop ops ms d s')" ..
    with Continue have "search_loop_within (Suc n) ops ms d s = Some (search_loop ops ms d s)"
      by (auto simp: search_loop.simps[of ops ms d s] search_loop_within.simps[of _ ops ms d s]
          search_turn_def)
    then show ?thesis ..
  qed
qed

section \<open>The graph lookups\<close>

lemmas Map_simps = Map_def Goiania_def Hidrolandia_def BelaVista_def ProfJamil_def
  Cristianopolis_def Piracanjuba_def Formiga_def Morrinhos_def CaldasNovas_def

lemma getitem_Inl: "(\<exists>e. getitem ms a = Inl e) \<longleftrightarrow> a \<notin> fst ` set ms"
  by (force simp: getitem_def map_of_eq_None_iff split: option.splits dest: map_of_SomeD)

text \<open>
  Claim C9. \<open>get_neighbours\<close> has no raising path (its result type has no error part):
  for a key that is the id of no member's city it returns the empty list, and otherwise
  the neighbour list stored in the first member whose city has that id.
\<close>

theorem get_neighbours_lenient:
  "(k \<notin> set (map (city_id \<circ> snd) ms) \<longrightarrow> get_neighbours ms k = [])
   \<and> (\<forall>c. find (\<lambda>c. city_id c = k) (map snd ms) = Some c
          \<longrightarrow> get_neighbours ms k = neighbours c)"
  by (induction ms) auto

text \<open>Witness for C9: no city of \<open>Map\<close> has the id Anapolis; Formiga is a city of \<open>Map\<close>.\<close>

theorem get_neighbours_lenient_witness:
  "''Anapolis'' \<notin> set (map (city_id \<circ> snd) (Map exact_ops))
   \<and> get_neighbours (Map exact_ops) ''Anapolis'' = []
   \<and> find (\<lambda>c. city_id c = ''Formiga'') (map snd (Map exact_ops)) = Some (Formiga exact_ops)
   \<and> get_neighbours (Map exact_ops) ''Formiga'' = [''Piracanjuba'']"
proof -
  have absent: "''Anapolis'' \<notin> set (map (city_id \<circ> snd) (Map exact_ops))"
    by (simp add: Map_simps)
  have present: "find (\<lambda>c. city_id c = ''Formiga'') (map snd (Map exact_ops))
                   = Some (Formiga exact_ops)"
    by (simp add: Map_simps)
  from get_neighbours_lenient [of "''Anapolis''" "Map exact_ops"] absent
  have "get_neighbours (Map exact_ops) ''Anapolis'' = []" by blast
  moreover from get_neighbours_lenient [of "''Formiga''" "Map exact_ops"] present
  have "get_neighbours (Map exact_ops) ''Formiga'' = neighbours (Formiga exact_ops)" by blast
  then have "get_neighbours (Map exact_ops) ''Formiga'' = [''Piracanjuba'']"
    by (simp add: Formiga_def)
  ultimately show ?thesis using absent present by blast
qed

lemma calc_KeyError:
  "(\<exists>k. calc_cartesian_distance ops ms id_a id_b = Inl (KeyError k))
     \<longleftrightarrow> (id_a \<notin> fst ` set ms \<or> id_b \<notin> fst ` set ms)"
  using getitem_Inl [of ms id_a] getitem_Inl [of ms id_b]
  by (auto simp: calc_cartesian_distance_def getitem_def split: sum.splits option.splits)

text \<open>
  Claim C10, amended. \<open>calc_cartesian_distance\<close> raises a \<open>KeyError\<close> exactly when one of
  the two keys is the name of no member. When both keys name members it raises
  \<open>OverflowError\<close> if the square of the difference of the latitudes or of the longitudes
  leaves the float range, and it returns the float root of the float sum of the two
  squares otherwise.
\<close>

theorem calc_cartesian_distance_raises:
  "((\<exists>k. calc_cartesian_distance ops ms id_a id_b = Inl (KeyError k))
      \<longleftrightarrow> (id_a \<notin> fst ` set ms \<or> id_b \<notin> fst ` set ms))
   \<and> (\<forall>cityA cityB. map_of ms id_a = Some cityA \<and> map_of ms id_b = Some cityB \<longrightarrow>
        (fl_square ops (fl_sub ops (latitude cityA) (latitude cityB)) = None
         \<or> fl_square ops (fl_sub ops (longitude cityA) (longitude cityB)) = None
           \<longrightarrow> calc_cartesian_distance ops ms id_a id_b = Inl OverflowError)
        \<and> (\<forall>lat2 lon2.
             fl_square ops (fl_sub ops (latitude cityA) (latitude cityB)) = Some lat2
             \<and> fl_square ops (fl_sub ops (longitude cityA) (longitude cityB)) = Some lon2
             \<longrightarrow> calc_cartesian_distance ops ms id_a id_b
                   = Inr (fl_root ops (fl_add ops lat2 lon2))))"
proof (intro conjI allI impI)
  show "(\<exists>k. calc_cartesian_distance ops ms id_a id_b = Inl (KeyError k))
      \<longleftrightarrow> (id_a \<notin> fst ` set ms \<or> id_b \<notin> fst ` set ms)"
    by (rule calc_KeyError)
next
  fix cityA cityB
  assume "map_of ms id_a = Some cityA \<and> map_of ms id_b = Some cityB"
    and "fl_square ops (fl_sub ops (latitude cityA) (latitude cityB)) = None
         \<or> fl_square ops (fl_sub ops (longitude cityA) (longitude cityB)) = None"
  then show "calc_cartesian_distance ops ms id_a id_b = Inl OverflowError"
    by (auto simp: calc_cartesian_distance_def getitem_def split: option.splits)
next
  fix cityA cityB lat2 lon2
  assume "map_of ms id_a = Some cityA \<and> map_of ms id_b = Some cityB"
    and "fl_square ops (fl_sub ops (latitude cityA) (latitude cityB)) = Some lat2
         \<and> fl_square ops (fl_sub ops (longitude cityA) (longitude cityB)) = Some lon2"
  then show "calc_cartesian_distance ops ms id_a id_b = Inr (fl_root ops (fl_add ops lat2 lon2))"
    by (simp add: calc_cartesian_distance_def getitem_def)
qed

text \<open>Squares in \<open>exact_ops\<close>: small ones are defined, the one of \<open>2 ^ 600\<close> is not.\<close>

lemma exact_square_small: "\<bar>x\<bar> \<le> 16 \<Longrightarrow> fl_square exact_ops x = Some (x\<^sup>2)"
proof -
  assume "\<bar>x\<bar> \<le> 16"
  then have "x\<^sup>2 \<le> 16\<^sup>2" by (metis abs_ge_zero power2_abs power_mono)
  also have "(16::real)\<^sup>2 = 2 ^ 8" by simp
  also have "(2::real) ^ 8 < 2 ^ 1024" by (rule power_strict_increasing) simp_all
  finally show ?thesis by (simp add: exact_ops_def)
qed

lemma exact_square_far: "fl_square exact_ops huge = None"
proof -
  have "huge\<^sup>2 = 2 ^ 1200" by (simp add: huge_def power_mult [symmetric])
  moreover have "(2::real) ^ 1024 < 2 ^ 1200" by (rule power_strict_increasing) simp_all
  ultimately show ?thesis by (simp add: exact_ops_def)
qed

lemma exact_ops_simps:
  "fl_lit exact_ops x = x" "fl_zero exact_ops = 0" "fl_sub exact_ops x y = x - y"
  "fl_add exact_ops x y = x + y" "fl_root exact_ops x = sqrt x"
  "fl_less exact_ops x y \<longleftrightarrow> x < y"
  by (simp_all add: exact_ops_def)

lemma sqrt_9: "sqrt 9 = 3"
  using real_sqrt_abs [of 3] by simp

lemma sqrt_16: "sqrt 16 = 4"
  using real_sqrt_abs [of 4] by simp

lemma sqrt_25: "sqrt 25 = 5"
  using real_sqrt_abs [of 5] by simp

text \<open>
  Claim C10 as stated fails: in \<open>far_map\<close> both keys name members and the call raises,
  since the square of \<open>2 ^ 600\<close> is out of the float range.
\<close>

theorem calc_cartesian_distance_raises_counterexample:
  "''A'' \<in> fst ` set far_map \<and> ''Z'' \<in> fst ` set far_map
   \<and> calc_cartesian_distance exact_ops far_map ''A'' ''Z'' = Inl OverflowError"
  by (simp add: far_map_def calc_cartesian_distance_def getitem_def exact_ops_simps
      exact_square_far)

text \<open>
  Witness for C10: in \<open>triangle_map\<close> the distance from \<open>G\<close> to \<open>H\<close> is 5 and the key
  \<open>X\<close> raises a \<open>KeyError\<close>; in \<open>far_map\<close> the square overflows.
\<close>

theorem calc_cartesian_distance_raises_witness:
  "map_of triangle_map ''G'' = Some cityG
   \<and> map_of triangle_map ''H'' = Some cityH
   \<and> fl_square exact_ops (fl_sub exact_ops (latitude cityG) (latitude cityH)) = Some 9
   \<and> fl_square exact_ops (fl_sub exact_ops (longitude cityG) (longitude cityH)) = Some 16
   \<and> calc_cartesian_distance exact_ops triangle_map ''G'' ''H'' = Inr 5
   \<and> ''X'' \<notin> fst ` set triangle_map
   \<and> (\<exists>k. calc_cartesian_distance exact_ops triangle_map ''G'' ''X'' = Inl (KeyError k))
   \<and> map_of far_map ''A''
       = Some \<lparr>city_id = ''A'', latitude = huge, longitude = 0, neighbours = []\<rparr>
   \<and> map_of far_map ''Z''
       = Some \<lparr>city_id = ''Z'', latitude = 0, longitude = 0, neighbours = []\<rparr>
   \<and> fl_square exact_ops (fl_sub exact_ops huge 0) = None
   \<and> calc_cartesian_distance exact_ops far_map ''A'' ''Z'' = Inl OverflowError"
proof -
  have g: "map_of triangle_map ''G'' = Some cityG" by (simp add: triangle_map_def)
  have h: "map_of triangle_map ''H'' = Some cityH" by (simp add: triangle_map_def)
  have lat: "fl_square exact_ops (fl_sub exact_ops (latitude cityG) (latitude cityH)) = Some 9"
    by (simp add: cityG_def cityH_def exact_ops_simps exact_square_small)
  have lon: "fl_square exact_ops (fl_sub exact_ops (longitude cityG) (longitude cityH)) = Some 16"
    by (simp add: cityG_def cityH_def exact_ops_simps exact_square_small)
  have x: "''X'' \<notin> fst ` set triangle_map" by (simp add: triangle_map_def)
  have a: "map_of far_map ''A''
       = Some \<lparr>city_id = ''A'', latitude = huge, longitude = 0, neighbours = []\<rparr>"
    by (simp add: far_map_def)
  have z: "map_of far_map ''Z''
       = Some \<lparr>city_id = ''Z'', latitude = 0, longitude = 0, neighbours = []\<rparr>"
    by (simp add: far_map_def)
  have far: "fl_square exact_ops (fl_sub exact_ops huge 0) = None"
    by (simp add: exact_ops_simps exact_square_far)
  from calc_cartesian_distance_raises [of exact_ops triangle_map "''G''" "''H''"] g h lat lon
  have "calc_cartesian_distance exact_ops triangle_map ''G'' ''H''
          = Inr (fl_root exact_ops (fl_add exact_ops 9 16))" by blast
  then have d: "calc_cartesian_distance exact_ops triangle_map ''G'' ''H'' = Inr 5"
    by (simp add: exact_ops_simps sqrt_25)
  from calc_cartesian_distance_raises [of exact_ops triangle_map "''G''" "''X''"] x
  have k: "\<exists>k. calc_cartesian_distance exact_ops triangle_map ''G'' ''X'' = Inl (KeyError k)"
    by blast
  from calc_cartesian_distance_raises [of exact_ops far_map "''A''" "''Z''"] a z far
  have o: "calc_cartesian_distance exact_ops far_map ''A'' ''Z'' = Inl OverflowError"
    by force
  from g h lat lon d x k a z far o show ?thesis by blast
qed

section \<open>The fringe\<close>

lemma insert_scan_takeWhile:
  "insert_scan ops f r
     = takeWhile (\<lambda>x. \<not> fl_less ops (heuristic ops x) (heuristic ops r)) f
        @ r # dropWhile (\<lambda>x. \<not> fl_less ops (heuristic ops x) (heuristic ops r)) f"
  by (induction f) auto

text \<open>
  Claim C1, as the code has it. \<open>add_route\<close> keeps the leading routes for which the test
  \<open>curr_route.heuristic < route.heuristic\<close> fails, and puts the new route immediately
  before the first route whose score is strictly less than its own (at the end when there
  is none); the visited list is untouched. The claim says "strictly greater".
\<close>

theorem add_route_position:
  "fringe (add_route ops s route) =
     takeWhile (\<lambda>x. \<not> fl_less ops (heuristic ops x) (heuristic ops route)) (fringe s)
       @ route # dropWhile (\<lambda>x. \<not> fl_less ops (heuristic ops x) (heuristic ops route))
                   (fringe s)
   \<and> visited (add_route ops s route) = visited s"
  by (simp add: add_route_def insert_scan_takeWhile)

text \<open>
  Claim C1 as stated fails: with one route of score 5 in the fringe, a new route of score
  3 is appended after it, where the rule of the claim would put it in front. (The scores
  are the sums \<open>2 + 3\<close> and \<open>1 + 2\<close>, exact in floats.)
\<close>

theorem add_route_counterexample:
  "fringe (add_route exact_ops
            \<lparr>fringe = [\<lparr>cities_ids = [''a''], cost = 2, evaluation = 3\<rparr>], visited = []\<rparr>
            \<lparr>cities_ids = [''b''], cost = 1, evaluation = 2\<rparr>)
   \<noteq> insert_before_first_greater exact_ops
            [\<lparr>cities_ids = [''a''], cost = 2, evaluation = 3\<rparr>]
            \<lparr>cities_ids = [''b''], cost = 1, evaluation = 2\<rparr>"
  by (simp add: add_route_def heuristic_def exact_ops_simps)

lemma float_order_irrefl: "float_order ops \<Longrightarrow> \<not> fl_less ops x x"
  by (simp add: float_order_def irreflp_def)

lemma float_order_trans:
  "float_order ops \<Longrightarrow> fl_less ops x y \<Longrightarrow> fl_less ops y z \<Longrightarrow> fl_less ops x z"
  unfolding float_order_def by (blast dest: transpD)

lemma float_order_asym: "float_order ops \<Longrightarrow> fl_less ops x y \<Longrightarrow> \<not> fl_less ops y x"
  using float_order_trans [of ops x y x] float_order_irrefl [of ops x] by blast

lemma fringe_sorted_insert_scan:
  assumes ord: "float_order ops"
  shows "fringe_sorted ops f \<Longrightarrow> fringe_sorted ops (insert_scan ops f r)"
proof (induction f)
  case Nil
  then show ?case by (simp add: fringe_sorted_def)
next
  case (Cons a f)
  from Cons.prems have tail: "fringe_sorted ops f"
    and head: "\<forall>x \<in> set f. \<not> fl_less ops (heuristic ops a) (heuristic ops x)"
    by (simp_all add: fringe_sorted_def)
  show ?case
  proof (cases "fl_less ops (heuristic ops a) (heuristic ops r)")
    case True
    have "\<not> fl_less ops (heuristic ops r) (heuristic ops a)"
      using float_order_asym [OF ord True] .
    moreover have "\<forall>x \<in> set f. \<not> fl_less ops (heuristic ops r) (heuristic ops x)"
      using head float_order_trans [OF ord True] by blast
    ultimately show ?thesis using True Cons.prems by (simp add: fringe_sorted_def)
  next
    case False
    with head Cons.IH [OF tail] show ?thesis
      by (simp add: fringe_sorted_def set_insert_scan)
  qed
qed

lemma insert_scan_split:
  assumes ord: "float_order ops"
  shows "fringe_sorted ops f \<Longrightarrow>
   \<exists>pre post. f = pre @ post \<and> insert_scan ops f r = pre @ r # post
      \<and> (\<forall>x \<in> set pre. \<not> fl_less ops (heuristic ops x) (heuristic ops r))
      \<and> (post \<noteq> [] \<longrightarrow> fl_less ops (heuristic ops (hd post)) (heuristic ops r))
      \<and> (\<forall>x \<in> set post. \<not> fl_less ops (heuristic ops r) (heuristic ops x)
                          \<and> heuristic ops x \<noteq> heuristic ops r)"
proof (induction f)
  case Nil
  then show ?case by simp
next
  case (Cons a f)
  from Cons.prems have tail: "fringe_sorted ops f"
    and head: "\<forall>x \<in> set f. \<not> fl_less ops (heuristic ops a) (heuristic ops x)"
    by (simp_all add: fringe_sorted_def)
  show ?case
  proof (cases "fl_less ops (heuristic ops a) (heuristic ops r)")
    case True
    have a1: "\<not> fl_less ops (heuristic ops r) (heuristic ops a)"
      using float_order_asym [OF ord True] .
    have a2: "heuristic ops a \<noteq> heuristic ops r"
      using True float_order_irrefl [OF ord] by metis
    have f1: "\<forall>x \<in> set f. \<not> fl_less ops (heuristic ops r) (heuristic ops x)"
      using head float_order_trans [OF ord True] by blast
    have f2: "\<forall>x \<in> set f. heuristic ops x \<noteq> heuristic ops r"
      using head True by metis
    have "a # f = [] @ (a # f)" by simp
    moreover have "insert_scan ops (a # f) r = [] @ r # (a # f)" using True by simp
    moreover have "\<forall>x \<in> set (a # f). \<not> fl_less ops (heuristic ops r) (heuristic ops x)
                          \<and> heuristic ops x \<noteq> heuristic ops r"
      using a1 a2 f1 f2 by simp
    moreover have "a # f \<noteq> [] \<longrightarrow> fl_less ops (heuristic ops (hd (a # f))) (heuristic ops r)"
      using True by simp
    moreover have "\<forall>x \<in> set []. \<not> fl_less ops (heuristic ops x) (heuristic ops r)" by simp
    ultimately show ?thesis by blast
  next
    case False
    from Cons.IH [OF tail] obtain pre post where
      1: "f = pre @ post" and 2: "insert_scan ops f r = pre @ r # post"
      and 3: "\<forall>x \<in> set pre. \<not> fl_less ops (heuristic ops x) (heuristic ops r)"
      and 4: "post \<noteq> [] \<longrightarrow> fl_less ops (heuristic ops (hd post)) (heuristic ops r)"
      and 5: "\<forall>x \<in> set post. \<not> fl_less ops (heuristic ops r) (heuristic ops x)
                          \<and> heuristic ops x \<noteq> heuristic ops r"
      by blast
    have "a # f = (a # pre) @ post" using 1 by simp
    moreover have "insert_scan ops (a # f) r = (a # pre) @ r # post" using False 2 by simp
    moreover have "\<forall>x \<in> set (a # pre). \<not> fl_less ops (heuristic ops x) (heuristic ops r)"
      using False 3 by simp
    ultimately show ?thesis using 4 5 by blast
  qed
qed

lemma fringe_sorted_last:
  assumes ord: "float_order ops"
  shows "fringe_sorted ops f \<Longrightarrow> f \<noteq> []
     \<Longrightarrow> \<forall>x \<in> set f. \<not> fl_less ops (heuristic ops x) (heuristic ops (last f))"
  by (induction f) (auto simp: fringe_sorted_def float_order_irrefl [OF ord])

lemma fringe_sorted_butlast: "fringe_sorted ops f \<Longrightarrow> fringe_sorted ops (butlast f)"
  by (induction f) (auto simp: fringe_sorted_def dest: in_set_butlastD)

lemma neighbours_loop_sorted:
  "float_order ops \<Longrightarrow> neighbours_loop ops ms route k d ns s = (res, s')
     \<Longrightarrow> fringe_sorted ops (fringe s) \<Longrightarrow> fringe_sorted ops (fringe s')"
  by (induction ns arbitrary: s)
     (auto simp: add_route_def fringe_sorted_insert_scan split: if_splits sum.splits)

lemma search_turn_sorted:
  "float_order ops \<Longrightarrow> fringe_sorted ops (fringe s)
     \<Longrightarrow> fringe_sorted ops (fringe (turn_state (search_turn ops ms d s)))"
  by (auto simp: search_turn_def turn_state_def next_route_def add_routes_for_neighbours_def
        fringe_sorted_butlast
      split: sum.splits prod.splits if_splits dest: neighbours_loop_sorted)

lemma set_foldl_add_route:
  "set (fringe (foldl (add_route ops) s rs)) = set (fringe s) \<union> set rs"
  by (induction rs arbitrary: s) (auto simp: add_route_def set_insert_scan)

lemma fringe_sorted_foldl:
  "float_order ops \<Longrightarrow> fringe_sorted ops (fringe s)
     \<Longrightarrow> fringe_sorted ops (fringe (foldl (add_route ops) s rs))"
  by (induction rs arbitrary: s) (auto simp: add_route_def fringe_sorted_insert_scan)

lemma last_of_inserts:
  assumes ord: "float_order ops"
  shows "rs \<noteq> [] \<Longrightarrow>
   \<exists>us r vs. rs = us @ r # vs \<and> fringe (foldl (add_route ops) init rs) \<noteq> []
      \<and> last (fringe (foldl (add_route ops) init rs)) = r
      \<and> (\<forall>x \<in> set rs. \<not> fl_less ops (heuristic ops x) (heuristic ops r))
      \<and> (\<forall>x \<in> set vs. heuristic ops x \<noteq> heuristic ops r)"
proof (induction rs rule: rev_induct)
  case Nil
  then show ?case by simp
next
  case (snoc y rs)
  let ?F = "fringe (foldl (add_route ops) init rs)"
  have sorted: "fringe_sorted ops ?F"
    by (rule fringe_sorted_foldl [OF ord]) (simp add: init_def fringe_sorted_def)
  have setF: "set ?F = set rs" by (simp add: set_foldl_add_route init_def)
  have F': "fringe (foldl (add_route ops) init (rs @ [y])) = insert_scan ops ?F y"
    by (simp add: add_route_def)
  from insert_scan_split [OF ord sorted, of y] obtain pre post where
    split: "?F = pre @ post" "insert_scan ops ?F y = pre @ y # post"
      "\<forall>x \<in> set pre. \<not> fl_less ops (heuristic ops x) (heuristic ops y)"
      "\<forall>x \<in> set post. \<not> fl_less ops (heuristic ops y) (heuristic ops x)
                          \<and> heuristic ops x \<noteq> heuristic ops y"
    by blast
  show ?case
  proof (cases "post = []")
    case True
    with split setF have "\<forall>x \<in> set rs. \<not> fl_less ops (heuristic ops x) (heuristic ops y)"
      by auto
    then have all: "\<forall>x \<in> set (rs @ [y]). \<not> fl_less ops (heuristic ops x) (heuristic ops y)"
      using float_order_irrefl [OF ord] by simp
    have a: "rs @ [y] = rs @ y # []" by simp
    have b: "fringe (foldl (add_route ops) init (rs @ [y])) \<noteq> []" using F' split(2) by simp
    have c: "last (fringe (foldl (add_route ops) init (rs @ [y]))) = y"
      using F' split(2) True by simp
    have d: "\<forall>x \<in> set []. heuristic ops x \<noteq> heuristic ops y" by simp
    from a b c all d show ?thesis by blast
  next
    case False
    with split have ne: "?F \<noteq> []" and l: "last (insert_scan ops ?F y) = last ?F" by auto
    from ne setF have "rs \<noteq> []" by auto
    from snoc.IH [OF this] obtain us r vs where
      IH: "rs = us @ r # vs" "last ?F = r"
        "\<forall>x \<in> set rs. \<not> fl_less ops (heuristic ops x) (heuristic ops r)"
        "\<forall>x \<in> set vs. heuristic ops x \<noteq> heuristic ops r" by blast
    from False split IH(2) have "r \<in> set post" by (metis last_appendR last_in_set)
    with split(4) have yr: "\<not> fl_less ops (heuristic ops y) (heuristic ops r)"
      "heuristic ops y \<noteq> heuristic ops r" by auto
    have a: "rs @ [y] = us @ r # (vs @ [y])" using IH(1) by simp
    have b: "fringe (foldl (add_route ops) init (rs @ [y])) \<noteq> []" using F' split(2) by simp
    have c: "last (fringe (foldl (add_route ops) init (rs @ [y]))) = r" using F' l IH(2) by simp
    have d: "\<forall>x \<in> set (vs @ [y]). heuristic ops x \<noteq> heuristic ops r"
      using IH(4) yr(2) by simp
    have e: "\<forall>x \<in> set (rs @ [y]). \<not> fl_less ops (heuristic ops x) (heuristic ops r)"
      using IH(3) yr(1) by simp
    from a b c d e show ?thesis by blast
  qed
qed

text \<open>
  Claim C3, for every arithmetic whose comparison is irreflexive and transitive, as that
  of floats is. The fringe of a new engine is in non-increasing order of score (no route
  has a score strictly less than that of a route behind it), and \<open>add_route\<close> and every
  turn of the search loop keep it so. On such a fringe \<open>add_route\<close> changes nothing but
  the place of the new route: no route in front of it has a score less than its own, and
  every route behind it has a score that is not greater and not equal; \<open>next_route\<close>
  removes the last route, leaves the fringe in order, and no route of the fringe has a
  score less than that of the route removed. After the routes \<open>rs\<close> were added one by one
  to a new engine, \<open>next_route\<close> returns a route \<open>r\<close> of \<open>rs\<close> such that no route of
  \<open>rs\<close> has a score less than that of \<open>r\<close> and no route added after \<open>r\<close> has the score
  of \<open>r\<close>: of the routes of minimal score the one added last.
\<close>

theorem fringe_order:
  assumes ord: "float_order ops"
  shows "fringe_sorted ops (fringe init)
   \<and> (fringe_sorted ops (fringe s) \<longrightarrow>
        fringe_sorted ops (fringe (add_route ops s route))
        \<and> fringe_sorted ops (fringe (turn_state (search_turn ops ms d s)))
        \<and> (\<exists>pre post. fringe s = pre @ post
              \<and> fringe (add_route ops s route) = pre @ route # post
              \<and> (\<forall>x \<in> set pre. \<not> fl_less ops (heuristic ops x) (heuristic ops route))
              \<and> (\<forall>x \<in> set post. \<not> fl_less ops (heuristic ops route) (heuristic ops x)
                                  \<and> heuristic ops x \<noteq> heuristic ops route))
        \<and> (\<forall>r s'. next_route s = Inr (r, s') \<longrightarrow>
              fringe s = fringe s' @ [r] \<and> fringe_sorted ops (fringe s')
              \<and> (\<forall>x \<in> set (fringe s). \<not> fl_less ops (heuristic ops x) (heuristic ops r))))
   \<and> (rs \<noteq> [] \<longrightarrow>
        (\<exists>us r vs s'. rs = us @ r # vs
              \<and> next_route (foldl (add_route ops) init rs) = Inr (r, s')
              \<and> (\<forall>x \<in> set rs. \<not> fl_less ops (heuristic ops x) (heuristic ops r))
              \<and> (\<forall>x \<in> set vs. heuristic ops x \<noteq> heuristic ops r)))"
proof (intro conjI impI allI)
  show "fringe_sorted ops (fringe init)" by (simp add: init_def fringe_sorted_def)
next
  assume "fringe_sorted ops (fringe s)"
  then show "fringe_sorted ops (fringe (add_route ops s route))"
    by (simp add: add_route_def fringe_sorted_insert_scan [OF ord])
next
  assume "fringe_sorted ops (fringe s)"
  with ord show "fringe_sorted ops (fringe (turn_state (search_turn ops ms d s)))"
    by (rule search_turn_sorted)
next
  assume "fringe_sorted ops (fringe s)"
  from insert_scan_split [OF ord this, of route]
  show "\<exists>pre post. fringe s = pre @ post
              \<and> fringe (add_route ops s route) = pre @ route # post
              \<and> (\<forall>x \<in> set pre. \<not> fl_less ops (heuristic ops x) (heuristic ops route))
              \<and> (\<forall>x \<in> set post. \<not> fl_less ops (heuristic ops route) (heuristic ops x)
                                  \<and> heuristic ops x \<noteq> heuristic ops route)"
    by (auto simp: add_route_def)
next
  fix r s'
  assume "fringe_sorted ops (fringe s)" and "next_route s = Inr (r, s')"
  then show "fringe s = fringe s' @ [r]"
    by (auto simp: next_route_def split: if_splits)
next
  fix r s'
  assume "fringe_sorted ops (fringe s)" and "next_route s = Inr (r, s')"
  then show "fringe_sorted ops (fringe s')"
    by (auto simp: next_route_def fringe_sorted_butlast split: if_splits)
next
  fix r s'
  assume "fringe_sorted ops (fringe s)" and "next_route s = Inr (r, s')"
  then show "\<forall>x \<in> set (fringe s). \<not> fl_less ops (heuristic ops x) (heuristic ops r)"
    using fringe_sorted_last [OF ord, of "fringe s"] by (auto simp: next_route_def split: if_splits)
next
  assume "rs \<noteq> []"
  from last_of_inserts [OF ord this]
  show "\<exists>us r vs s'. rs = us @ r # vs
              \<and> next_route (foldl (add_route ops) init rs) = Inr (r, s')
              \<and> (\<forall>x \<in> set rs. \<not> fl_less ops (heuristic ops x) (heuristic ops r))
              \<and> (\<forall>x \<in> set vs. heuristic ops x \<noteq> heuristic ops r)"
    by (auto simp: next_route_def)
qed

text \<open>
  Witness for C3: routes of scores 5, 3, 8 and 3, added in this order; the second route of
  score 3 comes behind the first and is the one popped.
\<close>

theorem fringe_order_witness:
  "float_order exact_ops
   \<and> fringe_sorted exact_ops
        (fringe \<lparr>fringe = [\<lparr>cities_ids = [''a''], cost = 2, evaluation = 3\<rparr>,
                            \<lparr>cities_ids = [''b''], cost = 1, evaluation = 2\<rparr>],
                  visited = []\<rparr>)
   \<and> fringe (add_route exact_ops
                \<lparr>fringe = [\<lparr>cities_ids = [''a''], cost = 2, evaluation = 3\<rparr>,
                           \<lparr>cities_ids = [''b''], cost = 1, evaluation = 2\<rparr>],
                 visited = []\<rparr>
                \<lparr>cities_ids = [''c''], cost = 3, evaluation = 0\<rparr>)
       = [\<lparr>cities_ids = [''a''], cost = 2, evaluation = 3\<rparr>,
          \<lparr>cities_ids = [''b''], cost = 1, evaluation = 2\<rparr>,
          \<lparr>cities_ids = [''c''], cost = 3, evaluation = 0\<rparr>]
   \<and> fringe_sorted exact_ops
        (fringe (add_route exact_ops
                   \<lparr>fringe = [\<lparr>cities_ids = [''a''], cost = 2, evaluation = 3\<rparr>,
                              \<lparr>cities_ids = [''b''], cost = 1, evaluation = 2\<rparr>],
                    visited = []\<rparr>
                   \<lparr>cities_ids = [''c''], cost = 3, evaluation = 0\<rparr>))
   \<and> fringe_sorted exact_ops
        (fringe (turn_state (search_turn exact_ops (Map exact_ops) (Goiania exact_ops)
                   \<lparr>fringe = [\<lparr>cities_ids = [''a''], cost = 2, evaluation = 3\<rparr>,
                              \<lparr>cities_ids = [''b''], cost = 1, evaluation = 2\<rparr>],
                    visited = []\<rparr>)))
   \<and> next_route \<lparr>fringe = [\<lparr>cities_ids = [''a''], cost = 2, evaluation = 3\<rparr>,
                            \<lparr>cities_ids = [''b''], cost = 1, evaluation = 2 :: real\<rparr>],
                  visited = []\<rparr>
       = Inr (\<lparr>cities_ids = [''b''], cost = 1, evaluation = 2\<rparr>,
              \<lparr>fringe = [\<lparr>cities_ids = [''a''], cost = 2, evaluation = 3\<rparr>], visited = []\<rparr>)
   \<and> fringe_sorted exact_ops [\<lparr>cities_ids = [''a''], cost = 2, evaluation = 3\<rparr>]
   \<and> [\<lparr>cities_ids = [''a''], cost = 2, evaluation = 3\<rparr>,
       \<lparr>cities_ids = [''b''], cost = 1, evaluation = 2\<rparr>,
       \<lparr>cities_ids = [''d''], cost = 8, evaluation = 0\<rparr>,
       \<lparr>cities_ids = [''c''], cost = 3, evaluation = 0 :: real\<rparr>] \<noteq> []
   \<and> (\<exists>us r vs s'.
         [\<lparr>cities_ids = [''a''], cost = 2, evaluation = 3\<rparr>,
          \<lparr>cities_ids = [''b''], cost = 1, evaluation = 2\<rparr>,
          \<lparr>cities_ids = [''d''], cost = 8, evaluation = 0\<rparr>,
          \<lparr>cities_ids = [''c''], cost = 3, evaluation = 0\<rparr>] = us @ r # vs
         \<and> next_route (foldl (add_route exact_ops) init
              [\<lparr>cities_ids = [''a''], cost = 2, evaluation = 3\<rparr>,
               \<lparr>cities_ids = [''b''], cost = 1, evaluation = 2\<rparr>,
               \<lparr>cities_ids = [''d''], cost = 8, evaluation = 0\<rparr>,
               \<lparr>cities_ids = [''c''], cost = 3, evaluation = 0\<rparr>]) = Inr (r, s')
         \<and> (\<forall>x \<in> set (us @ r # vs).
               \<not> fl_less exact_ops (heuristic exact_ops x) (heuristic exact_ops r))
         \<and> (\<forall>x \<in> set vs. heuristic exact_ops x \<noteq> heuristic exact_ops r))
   \<and> next_route (foldl (add_route exact_ops) init
              [\<lparr>cities_ids = [''a''], cost = 2, evaluation = 3\<rparr>,
               \<lparr>cities_ids = [''b''], cost = 1, evaluation = 2\<rparr>,
               \<lparr>cities_ids = [''d''], cost = 8, evaluation = 0\<rparr>,
               \<lparr>cities_ids = [''c''], cost = 3, evaluation = 0\<rparr>])
       = Inr (\<lparr>cities_ids = [''c''], cost = 3, evaluation = 0\<rparr>,
              \<lparr>fringe = [\<lparr>cities_ids = [''d''], cost = 8, evaluation = 0\<rparr>,
                         \<lparr>cities_ids = [''a''], cost = 2, evaluation = 3\<rparr>,
                         \<lparr>cities_ids = [''b''], cost = 1, evaluation = 2\<rparr>],
               visited = []\<rparr>)"
proof -
  let ?a = "\<lparr>cities_ids = [''a''], cost = 2, evaluation = 3\<rparr> :: real Route"
  let ?b = "\<lparr>cities_ids = [''b''], cost = 1, evaluation = 2\<rparr> :: real Route"
  let ?c = "\<lparr>cities_ids = [''c''], cost = 3, evaluation = 0\<rparr> :: real Route"
  let ?d = "\<lparr>cities_ids = [''d''], cost = 8, evaluation = 0\<rparr> :: real Route"
  let ?s = "\<lparr>fringe = [?a, ?b], visited = []\<rparr>"
  have o: "float_order exact_ops"
    by (auto simp: float_order_def exact_ops_def irreflp_def transp_def)
  have h: "fringe_sorted exact_ops (fringe ?s)"
    by (simp add: fringe_sorted_def heuristic_def exact_ops_simps)
  have n: "[?a, ?b, ?d, ?c] \<noteq> []" by simp
  have p: "next_route ?s = Inr (?b, \<lparr>fringe = [?a], visited = []\<rparr>)"
    by (simp add: next_route_def)
  have e: "fringe (add_route exact_ops ?s ?c) = [?a, ?b, ?c]"
    by (simp add: add_route_def heuristic_def exact_ops_simps)
  have q: "next_route (foldl (add_route exact_ops) init [?a, ?b, ?d, ?c])
             = Inr (?c, \<lparr>fringe = [?d, ?a, ?b], visited = []\<rparr>)"
    by (simp add: next_route_def add_route_def init_def heuristic_def exact_ops_simps)
  note t = fringe_order [OF o, where s = ?s and route = ?c and ms = "Map exact_ops"
      and d = "Goiania exact_ops" and rs = "[?a, ?b, ?d, ?c]"]
  from t h have r1: "fringe_sorted exact_ops (fringe (add_route exact_ops ?s ?c))" by blast
  from t h have r2: "fringe_sorted exact_ops
      (fringe (turn_state (search_turn exact_ops (Map exact_ops) (Goiania exact_ops) ?s)))"
    by blast
  from t h p have "fringe_sorted exact_ops (fringe \<lparr>fringe = [?a], visited = []\<rparr>)" by blast
  then have r3: "fringe_sorted exact_ops [?a]" by simp
  from t n have "\<exists>us r vs s'. [?a, ?b, ?d, ?c] = us @ r # vs
         \<and> next_route (foldl (add_route exact_ops) init [?a, ?b, ?d, ?c]) = Inr (r, s')
         \<and> (\<forall>x \<in> set [?a, ?b, ?d, ?c].
               \<not> fl_less exact_ops (heuristic exact_ops x) (heuristic exact_ops r))
         \<and> (\<forall>x \<in> set vs. heuristic exact_ops x \<noteq> heuristic exact_ops r)" by blast
  then have r4: "\<exists>us r vs s'. [?a, ?b, ?d, ?c] = us @ r # vs
         \<and> next_route (foldl (add_route exact_ops) init [?a, ?b, ?d, ?c]) = Inr (r, s')
         \<and> (\<forall>x \<in> set (us @ r # vs).
               \<not> fl_less exact_ops (heuristic exact_ops x) (heuristic exact_ops r))
         \<and> (\<forall>x \<in> set vs. heuristic exact_ops x \<noteq> heuristic exact_ops r)"
    by metis
  from o h e r1 r2 p r3 n r4 q show ?thesis by blast
qed

section \<open>Routes to visited keys\<close>

lemma ends_in_target: "ends_in k r \<Longrightarrow> target r = k"
  by (auto simp: ends_in_def last_city_id_def target_def split: if_splits)

lemma add_routes_for_neighbours_ends_in:
  assumes "add_routes_for_neighbours ops ms s route d = (res, s')" and "k \<in> set (visited s)"
  shows "filter (ends_in k) (fringe s') = filter (ends_in k) (fringe s)" and "visited s' = visited s"
proof -
  show "visited s' = visited s" using assms(1)
    by (auto simp: add_routes_for_neighbours_def split: sum.splits dest: neighbours_loop_visited)
  show "filter (ends_in k) (fringe s') = filter (ends_in k) (fringe s)"
  proof (cases "last_city_id route")
    case (Inl e)
    with assms(1) show ?thesis by (simp add: add_routes_for_neighbours_def)
  next
    case (Inr l)
    with assms(1) have "neighbours_loop ops ms route l d (get_neighbours ms l) s = (res, s')"
      by (simp add: add_routes_for_neighbours_def)
    then show ?thesis
      by (rule neighbours_loop_filter) (use assms(2) in \<open>auto dest: ends_in_target\<close>)
  qed
qed

lemma prefix_filter_butlast: "prefix (filter P (butlast xs)) (filter P xs)"
  by (rule filter_mono_prefix) (rule prefixeq_butlast)

lemma search_turn_ends_in:
  assumes "k \<in> set (visited s)"
  shows "k \<in> set (visited (turn_state (search_turn ops ms d s)))
         \<and> prefix (filter (ends_in k) (fringe (turn_state (search_turn ops ms d s))))
                  (filter (ends_in k) (fringe s))"
proof (cases "fringe s = []")
  case True
  with assms show ?thesis by (simp add: search_turn_def turn_state_def)
next
  case ne: False
  show ?thesis
  proof (cases "last_city_id (last (fringe s))")
    case (Inl e)
    with ne assms show ?thesis
      by (simp add: search_turn_def turn_state_def next_route_def prefix_filter_butlast)
  next
    case (Inr l)
    show ?thesis
    proof (cases "l = city_id d")
      case True
      with ne Inr assms show ?thesis
        by (simp add: search_turn_def turn_state_def next_route_def prefix_filter_butlast)
    next
      case False
      let ?s2 = "s\<lparr>fringe := butlast (fringe s), visited := visited s @ [l]\<rparr>"
      obtain res s3 where run: "add_routes_for_neighbours ops ms ?s2 (last (fringe s)) d = (res, s3)"
        by (cases "add_routes_for_neighbours ops ms ?s2 (last (fringe s)) d") auto
      have k2: "k \<in> set (visited ?s2)" using assms by simp
      from add_routes_for_neighbours_ends_in[OF run k2]
      have f: "filter (ends_in k) (fringe s3) = filter (ends_in k) (butlast (fringe s))"
        and v: "visited s3 = visited s @ [l]" by simp_all
      have "turn_state (search_turn ops ms d s) = s3"
        using ne Inr False run
        by (cases res) (simp_all add: search_turn_def turn_state_def next_route_def)
      with f v assms show ?thesis by (simp add: prefix_filter_butlast)
    qed
  qed
qed

lemma turn_steps_ends_in:
  assumes "(turn_step ops ms d)\<^sup>*\<^sup>* s s1" and "k \<in> set (visited s)"
  shows "k \<in> set (visited s1) \<and> prefix (filter (ends_in k) (fringe s1)) (filter (ends_in k) (fringe s))"
  using assms
proof (induction rule: rtranclp_induct)
  case base
  then show ?case by simp
next
  case (step s1 s2)
  then have k1: "k \<in> set (visited s1)"
    and p1: "prefix (filter (ends_in k) (fringe s1)) (filter (ends_in k) (fringe s))" by simp_all
  from step.hyps(2) have "turn_state (search_turn ops ms d s1) = s2"
    by (simp add: turn_step_def turn_state_def)
  with search_turn_ends_in[OF k1, of ops ms d]
  have "k \<in> set (visited s2)"
    and "prefix (filter (ends_in k) (fringe s2)) (filter (ends_in k) (fringe s1))" by simp_all
  with p1 show ?case by (auto intro: prefix_order.trans)
qed

text \<open>
  Claim C8. \<open>add_routes_for_neighbours\<close> inserts no route that ends in a key of the
  visited list: the routes of the fringe that end in such a key are the same before and
  after. Hence, from a state \<open>s\<close> of the loop in which \<open>k\<close> is visited, after any number
  of further turns (and after the turn that follows them, whether it returns, raises or
  goes on) \<open>k\<close> is still visited and the routes of the fringe that end in \<open>k\<close> are an
  initial part of those that were there in \<open>s\<close>: some were popped, none was inserted.
\<close>

theorem visited_exclusion:
  "(add_routes_for_neighbours ops ms s route d = (res, s') \<and> k \<in> set (visited s) \<longrightarrow>
      visited s' = visited s \<and> filter (ends_in k) (fringe s') = filter (ends_in k) (fringe s))
   \<and> ((turn_step ops ms d)\<^sup>*\<^sup>* s s1 \<and> k \<in> set (visited s) \<longrightarrow>
      k \<in> set (visited s1)
      \<and> prefix (filter (ends_in k) (fringe s1)) (filter (ends_in k) (fringe s))
      \<and> k \<in> set (visited (turn_state (search_turn ops ms d s1)))
      \<and> prefix (filter (ends_in k) (fringe (turn_state (search_turn ops ms d s1))))
               (filter (ends_in k) (fringe s)))"
proof (intro conjI impI)
  assume a: "add_routes_for_neighbours ops ms s route d = (res, s') \<and> k \<in> set (visited s)"
  then show "visited s' = visited s"
    using add_routes_for_neighbours_ends_in(2) by blast
  from a show "filter (ends_in k) (fringe s') = filter (ends_in k) (fringe s)"
    using add_routes_for_neighbours_ends_in(1) by blast
next
  assume a: "(turn_step ops ms d)\<^sup>*\<^sup>* s s1 \<and> k \<in> set (visited s)"
  then have 1: "k \<in> set (visited s1)"
    and 2: "prefix (filter (ends_in k) (fringe s1)) (filter (ends_in k) (fringe s))"
    using turn_steps_ends_in by blast+
  show "k \<in> set (visited s1)" by (rule 1)
  show "prefix (filter (ends_in k) (fringe s1)) (filter (ends_in k) (fringe s))" by (rule 2)
  from search_turn_ends_in[OF 1, of ops ms d]
  show "k \<in> set (visited (turn_state (search_turn ops ms d s1)))" by simp
  from search_turn_ends_in[OF 1, of ops ms d] 2
  show "prefix (filter (ends_in k) (fringe (turn_state (search_turn ops ms d s1))))
               (filter (ends_in k) (fringe s))"
    by (auto intro: prefix_order.trans)
qed

text \<open>Witness for C8, on \<open>Map\<close> with Piracanjuba visited.\<close>

theorem visited_exclusion_witness:
  "add_routes_for_neighbours exact_ops (Map exact_ops)
      \<lparr>fringe = [\<lparr>cities_ids = [''Piracanjuba''], cost = 0, evaluation = 0\<rparr>],
       visited = [''Piracanjuba'', ''Formiga'']\<rparr>
      \<lparr>cities_ids = [''Piracanjuba'', ''Formiga''], cost = 1, evaluation = 1\<rparr>
      (Goiania exact_ops)
     = (Inr (),
        \<lparr>fringe = [\<lparr>cities_ids = [''Piracanjuba''], cost = 0, evaluation = 0\<rparr>],
         visited = [''Piracanjuba'', ''Formiga'']\<rparr>)
   \<and> ''Piracanjuba'' \<in> set (visited
        (\<lparr>fringe = [\<lparr>cities_ids = [''Piracanjuba''], cost = 0, evaluation = 0\<rparr>,
                    \<lparr>cities_ids = [''Piracanjuba'', ''Formiga''], cost = 1, evaluation = 1\<rparr>],
          visited = [''Piracanjuba'']\<rparr> :: real GPSGreedyBestFirst))
   \<and> (turn_step exact_ops (Map exact_ops) (Goiania exact_ops))\<^sup>*\<^sup>*
        \<lparr>fringe = [\<lparr>cities_ids = [''Piracanjuba''], cost = 0, evaluation = 0\<rparr>,
                   \<lparr>cities_ids = [''Piracanjuba'', ''Formiga''], cost = 1, evaluation = 1\<rparr>],
         visited = [''Piracanjuba'']\<rparr>
        \<lparr>fringe = [\<lparr>cities_ids = [''Piracanjuba''], cost = 0, evaluation = 0\<rparr>],
         visited = [''Piracanjuba'', ''Formiga'']\<rparr>
   \<and> prefix
        (filter (ends_in ''Piracanjuba'')
           (fringe (turn_state (search_turn exact_ops (Map exact_ops) (Goiania exact_ops)
              \<lparr>fringe = [\<lparr>cities_ids = [''Piracanjuba''], cost = 0, evaluation = 0\<rparr>],
               visited = [''Piracanjuba'', ''Formiga'']\<rparr>))))
        [\<lparr>cities_ids = [''Piracanjuba''], cost = 0, evaluation = 0\<rparr>]"
proof -
  let ?p = "\<lparr>cities_ids = [''Piracanjuba''], cost = 0, evaluation = 0\<rparr> :: real Route"
  let ?pf = "\<lparr>cities_ids = [''Piracanjuba'', ''Formiga''], cost = 1, evaluation = 1\<rparr>
               :: real Route"
  let ?s0 = "\<lparr>fringe = [?p, ?pf], visited = [''Piracanjuba'']\<rparr>"
  let ?s1 = "\<lparr>fringe = [?p], visited = [''Piracanjuba'', ''Formiga'']\<rparr>"
  have a: "add_routes_for_neighbours exact_ops (Map exact_ops) ?s1 ?pf (Goiania exact_ops)
             = (Inr (), ?s1)"
    by (simp add: add_routes_for_neighbours_def last_city_id_def Map_simps)
  have k: "''Piracanjuba'' \<in> set (visited ?s0)" by simp
  have "turn_step exact_ops (Map exact_ops) (Goiania exact_ops) ?s0 ?s1"
    by (simp add: turn_step_def search_turn_def next_route_def last_city_id_def
        add_routes_for_neighbours_def Map_simps)
  then have r: "(turn_step exact_ops (Map exact_ops) (Goiania exact_ops))\<^sup>*\<^sup>* ?s0 ?s1"
    by (rule r_into_rtranclp)
  have k1: "''Piracanjuba'' \<in> set (visited ?s1)" by simp
  from visited_exclusion [of exact_ops "Map exact_ops" ?s1 ?pf "Goiania exact_ops" "Inr ()" ?s1
      "''Piracanjuba''"] a k1
  have v: "visited ?s1 = visited ?s1
           \<and> filter (ends_in ''Piracanjuba'') (fringe ?s1)
               = filter (ends_in ''Piracanjuba'') (fringe ?s1)" by fast
  from visited_exclusion [of exact_ops "Map exact_ops" ?s0 _ "Goiania exact_ops" _ _
      "''Piracanjuba''" ?s1] r k
  have "prefix (filter (ends_in ''Piracanjuba'')
           (fringe (turn_state
              (search_turn exact_ops (Map exact_ops) (Goiania exact_ops) ?s1))))
        (filter (ends_in ''Piracanjuba'') (fringe ?s0))" by blast
  then have "prefix (filter (ends_in ''Piracanjuba'')
           (fringe (turn_state
              (search_turn exact_ops (Map exact_ops) (Goiania exact_ops) ?s1)))) [?p]"
    by (simp add: ends_in_def last_city_id_def)
  with a k r v show ?thesis by blast
qed

section \<open>Results of the search\<close>

text \<open>Facts for evaluating the search on the example graphs.\<close>

lemmas run_simps = search_def search_within_def init_def add_route_def search_loop.simps
  search_loop_within.simps search_turn_def next_route_def last_city_id_def
  add_routes_for_neighbours_def calc_cartesian_distance_def getitem_def heuristic_def
  exact_ops_simps exact_square_small

lemma float_order_exact: "float_order exact_ops"
  by (auto simp: float_order_def exact_ops_def irreflp_def transp_def)

lemma self_difference_squares_exact: "self_difference_squares exact_ops"
  by (simp add: self_difference_squares_def exact_ops_def)

lemma calc_same:
  assumes "self_difference_squares ops" and "k \<in> fst ` set ms"
  shows "\<exists>e. calc_cartesian_distance ops ms k k = Inr e"
proof -
  from assms(2) obtain c where "map_of ms k = Some c"
    by (metis map_of_eq_None_iff not_Some_eq)
  moreover from assms(1) obtain x y where
    "fl_square ops (fl_sub ops (latitude c) (latitude c)) = Some x"
    "fl_square ops (fl_sub ops (longitude c) (longitude c)) = Some y"
    unfolding self_difference_squares_def by (metis not_Some_eq)
  ultimately show ?thesis by (simp add: calc_cartesian_distance_def getitem_def)
qed

text \<open>
  Claim C5. For a city whose id is the name of a member, \<open>search\<close> from the city to
  itself on a new engine returns the route \<open>[k]\<close> with cost 0 and, as estimate, the
  distance computed from the city to itself, and leaves the engine as new; one popped
  route is enough. The law of the arithmetic used is that the square of \<open>x - x\<close> raises
  nothing.
\<close>

theorem search_same_city:
  assumes law: "self_difference_squares ops" and k: "city_id c \<in> fst ` set ms"
  shows "\<exists>e. calc_cartesian_distance ops ms (city_id c) (city_id c) = Inr e
           \<and> search ops ms init c c
               = (Inr (Some \<lparr>cities_ids = [city_id c], cost = fl_zero ops, evaluation = e\<rparr>),
                  init)
           \<and> search_within 1 ops ms init c c
               = Some (Inr (Some \<lparr>cities_ids = [city_id c], cost = fl_zero ops,
                                   evaluation = e\<rparr>),
                       init)"
proof -
  from calc_same [OF law k] obtain e where
    e: "calc_cartesian_distance ops ms (city_id c) (city_id c) = Inr e" by blast
  then have "search ops ms init c c
               = (Inr (Some \<lparr>cities_ids = [city_id c], cost = fl_zero ops, evaluation = e\<rparr>),
                  init)
           \<and> search_within 1 ops ms init c c
               = Some (Inr (Some \<lparr>cities_ids = [city_id c], cost = fl_zero ops,
                                   evaluation = e\<rparr>),
                       init)"
    by (simp add: search_def search_within_def init_def add_route_def search_loop.simps
        search_loop_within.simps search_turn_def next_route_def last_city_id_def)
  with e show ?thesis by blast
qed

text \<open>Witness for C5: Goiania to Goiania, the first search of the demo.\<close>

theorem search_same_city_witness:
  "self_difference_squares exact_ops
   \<and> city_id (Goiania exact_ops) \<in> fst ` set (Map exact_ops)
   \<and> calc_cartesian_distance exact_ops (Map exact_ops) (city_id (Goiania exact_ops))
         (city_id (Goiania exact_ops)) = Inr 0
   \<and> search exact_ops (Map exact_ops) init (Goiania exact_ops) (Goiania exact_ops)
       = (Inr (Some \<lparr>cities_ids = [''Goiania''], cost = 0, evaluation = 0\<rparr>), init)
   \<and> search_within 1 exact_ops (Map exact_ops) init (Goiania exact_ops) (Goiania exact_ops)
       = Some (Inr (Some \<lparr>cities_ids = [''Goiania''], cost = 0, evaluation = 0\<rparr>), init)"
proof -
  have h: "city_id (Goiania exact_ops) \<in> fst ` set (Map exact_ops)"
    by (simp add: Map_def Goiania_def)
  have e: "calc_cartesian_distance exact_ops (Map exact_ops) (city_id (Goiania exact_ops))
         (city_id (Goiania exact_ops)) = Inr 0"
    by (simp add: calc_cartesian_distance_def getitem_def Map_def Goiania_def exact_ops_simps
        exact_square_small)
  from search_same_city [OF self_difference_squares_exact h] e
  have "search exact_ops (Map exact_ops) init (Goiania exact_ops) (Goiania exact_ops)
       = (Inr (Some \<lparr>cities_ids = [city_id (Goiania exact_ops)], cost = fl_zero exact_ops,
                     evaluation = 0\<rparr>), init)
   \<and> search_within 1 exact_ops (Map exact_ops) init (Goiania exact_ops) (Goiania exact_ops)
       = Some (Inr (Some \<lparr>cities_ids = [city_id (Goiania exact_ops)], cost = fl_zero exact_ops,
                           evaluation = 0\<rparr>), init)"
    by auto
  with self_difference_squares_exact h e show ?thesis
    by (simp add: Goiania_def exact_ops_simps)
qed

text \<open>
  Claim C4, amended. For every arithmetic, every graph, every state of the engine and
  every origin and destination, \<open>search\<close> returns after finitely many popped routes: some
  bound \<open>n\<close> on the number of pops is enough for the bounded search to give the result of
  \<open>search\<close>.
\<close>

theorem search_terminates:
  "\<exists>n. search_within n ops ms s origin destination = Some (search ops ms s origin destination)"
  using search_within_total
  by (auto simp: search_def search_within_def split: sum.splits)

text \<open>
  Claim C4 as stated fails: \<open>clique_map\<close> has five cities, and the search from \<open>A\<close> to
  \<open>Z\<close> on a new engine has not returned after five popped routes, nor after six; it
  returns with the seventh.
\<close>

theorem search_pops_counterexample:
  "length clique_map = 5
   \<and> search_within 5 exact_ops clique_map init cityA cityZ = None
   \<and> search_within 6 exact_ops clique_map init cityA cityZ = None
   \<and> search_within 7 exact_ops clique_map init cityA cityZ
       = Some (Inr None,
               \<lparr>fringe = [], visited = [''A'', ''E'', ''C'', ''B'', ''B'', ''C'', ''B'']\<rparr>)"
  by (simp add: run_simps clique_map_def cityA_def cityZ_def sqrt_9 sqrt_16)

section \<open>The direct neighbour\<close>

lemma insert_scan_append:
  "\<forall>c \<in> set f. \<not> fl_less ops (heuristic ops c) (heuristic ops r)
     \<Longrightarrow> insert_scan ops f r = f @ [r]"
  by (induction f) auto

lemma insert_scan_keeps_last:
  "\<exists>c \<in> set f. fl_less ops (heuristic ops c) (heuristic ops r)
     \<Longrightarrow> insert_scan ops f r \<noteq> [] \<and> last (insert_scan ops f r) = last f"
  by (induction f) auto

lemma direct_neighbours_loop:
  assumes ord: "float_order ops"
    and ab: "calc_cartesian_distance ops ms a (city_id B) = Inr dab"
    and bb: "calc_cartesian_distance ops ms (city_id B) (city_id B) = Inr dbb"
    and route: "cities_ids route = [a]" "cost route = fl_zero ops"
    and rb: "rb = \<lparr>cities_ids = [a, city_id B], cost = fl_add ops dab (fl_zero ops),
                   evaluation = dbb\<rparr>"
    and H: "\<forall>n \<in> set ns. n \<noteq> city_id B \<and> n \<noteq> a \<longrightarrow>
              (\<exists>x y. calc_cartesian_distance ops ms a n = Inr x
                   \<and> calc_cartesian_distance ops ms (city_id B) n = Inr y
                   \<and> fl_less ops (heuristic ops rb)
                        (fl_add ops (fl_add ops x (fl_zero ops)) y))"
    and v: "set (visited s) = {a}"
    and P: "\<forall>r \<in> set (fringe s). r = rb \<or> fl_less ops (heuristic ops rb) (heuristic ops r)"
    and L: "rb \<in> set (fringe s) \<longrightarrow> last (fringe s) = rb"
  shows "\<exists>s'. neighbours_loop ops ms route a B ns s = (Inr (), s')
            \<and> (\<forall>r \<in> set (fringe s'). r = rb
                  \<or> fl_less ops (heuristic ops rb) (heuristic ops r))
            \<and> (rb \<in> set (fringe s') \<longrightarrow> last (fringe s') = rb)
            \<and> set (fringe s) \<subseteq> set (fringe s')
            \<and> (city_id B \<in> set ns \<and> city_id B \<noteq> a \<longrightarrow> rb \<in> set (fringe s'))"
  using H v P L
proof (induction ns arbitrary: s)
  case Nil
  then show ?case by simp
next
  case (Cons n ns)
  have H': "\<forall>n \<in> set ns. n \<noteq> city_id B \<and> n \<noteq> a \<longrightarrow>
              (\<exists>x y. calc_cartesian_distance ops ms a n = Inr x
                   \<and> calc_cartesian_distance ops ms (city_id B) n = Inr y
                   \<and> fl_less ops (heuristic ops rb)
                        (fl_add ops (fl_add ops x (fl_zero ops)) y))"
    using Cons.prems(1) by simp
  show ?case
  proof (cases "n = a")
    case True
    from Cons.IH [OF H' Cons.prems(2,3,4)] obtain s' where
      "neighbours_loop ops ms route a B ns s = (Inr (), s')"
      "\<forall>r \<in> set (fringe s'). r = rb \<or> fl_less ops (heuristic ops rb) (heuristic ops r)"
      "rb \<in> set (fringe s') \<longrightarrow> last (fringe s') = rb"
      "set (fringe s) \<subseteq> set (fringe s')"
      "city_id B \<in> set ns \<and> city_id B \<noteq> a \<longrightarrow> rb \<in> set (fringe s')" by blast
    with True Cons.prems(2) show ?thesis by auto
  next
    case na: False
    then have nv: "n \<notin> set (visited s)" using Cons.prems(2) by simp
    obtain x y where xy: "calc_cartesian_distance ops ms a n = Inr x"
      "calc_cartesian_distance ops ms (city_id B) n = Inr y"
      and new: "n = city_id B
                \<or> fl_less ops (heuristic ops rb) (fl_add ops (fl_add ops x (fl_zero ops)) y)"
    proof (cases "n = city_id B")
      case True
      with ab bb that show ?thesis by blast
    next
      case False
      with na Cons.prems(1) that show ?thesis by auto
    qed
    let ?r = "\<lparr>cities_ids = cities_ids route @ [n], cost = fl_add ops x (cost route),
               evaluation = y\<rparr>"
    let ?s1 = "add_route ops s ?r"
    have hr: "heuristic ops ?r = fl_add ops (fl_add ops x (fl_zero ops)) y"
      using route by (simp add: heuristic_def)
    have r: "?r = rb \<or> fl_less ops (heuristic ops rb) (heuristic ops ?r)"
    proof (cases "n = city_id B")
      case True
      with xy ab bb have "x = dab" "y = dbb" by simp_all
      with True rb route show ?thesis by simp
    next
      case False
      with new hr show ?thesis by simp
    qed
    have s1: "visited ?s1 = visited s" "set (fringe ?s1) = insert ?r (set (fringe s))"
      by (simp_all add: add_route_def set_insert_scan)
    have P1: "\<forall>r \<in> set (fringe ?s1). r = rb
                \<or> fl_less ops (heuristic ops rb) (heuristic ops r)"
      using Cons.prems(3) r s1(2) by auto
    have v1: "set (visited ?s1) = {a}" using Cons.prems(2) s1(1) by simp
    have L1: "rb \<in> set (fringe ?s1) \<longrightarrow> last (fringe ?s1) = rb"
    proof
      assume in1: "rb \<in> set (fringe ?s1)"
      show "last (fringe ?s1) = rb"
      proof (cases "?r = rb")
        case True
        have "\<forall>c \<in> set (fringe s). \<not> fl_less ops (heuristic ops c) (heuristic ops rb)"
        proof
          fix c assume "c \<in> set (fringe s)"
          with Cons.prems(3)
          have "c = rb \<or> fl_less ops (heuristic ops rb) (heuristic ops c)" by blast
          then show "\<not> fl_less ops (heuristic ops c) (heuristic ops rb)"
            using float_order_irrefl [OF ord, of "heuristic ops rb"]
              float_order_asym [OF ord, of "heuristic ops rb" "heuristic ops c"] by blast
        qed
        then have "insert_scan ops (fringe s) rb = fringe s @ [rb]"
          by (rule insert_scan_append)
        with True show ?thesis by (simp add: add_route_def)
      next
        case False
        with in1 s1(2) have old: "rb \<in> set (fringe s)" by auto
        with Cons.prems(4) have l: "last (fringe s) = rb" by simp
        from False r have "fl_less ops (heuristic ops rb) (heuristic ops ?r)" by simp
        with old have "\<exists>c \<in> set (fringe s). fl_less ops (heuristic ops c) (heuristic ops ?r)"
          by blast
        from insert_scan_keeps_last [OF this] l show ?thesis by (simp add: add_route_def)
      qed
    qed
    from Cons.IH [OF H' v1 P1 L1] obtain s' where
      run: "neighbours_loop ops ms route a B ns ?s1 = (Inr (), s')"
      and 2: "\<forall>r \<in> set (fringe s'). r = rb
                \<or> fl_less ops (heuristic ops rb) (heuristic ops r)"
      and 3: "rb \<in> set (fringe s') \<longrightarrow> last (fringe s') = rb"
      and 4: "set (fringe ?s1) \<subseteq> set (fringe s')"
      and 5: "city_id B \<in> set ns \<and> city_id B \<noteq> a \<longrightarrow> rb \<in> set (fringe s')" by blast
    have r0: "neighbours_loop ops ms route a B (n # ns) s = (Inr (), s')"
      using nv xy run by simp
    have r4: "set (fringe s) \<subseteq> set (fringe s')" using 4 s1(2) by auto
    have r5: "city_id B \<in> set (n # ns) \<and> city_id B \<noteq> a \<longrightarrow> rb \<in> set (fringe s')"
    proof (cases "n = city_id B")
      case True
      with xy ab bb have "x = dab" "y = dbb" by simp_all
      with True rb route have "?r = rb" by simp
      with 4 s1(2) show ?thesis by auto
    next
      case False
      with 5 show ?thesis by simp
    qed
    from r0 2 3 r4 r5 show ?thesis by blast
  qed
qed

lemma direct_neighbour_found:
  assumes ord: "float_order ops"
    and ne: "city_id A \<noteq> city_id B"
    and nb: "city_id B \<in> set (get_neighbours ms (city_id A))"
    and ab: "calc_cartesian_distance ops ms (city_id A) (city_id B) = Inr dab"
    and bb: "calc_cartesian_distance ops ms (city_id B) (city_id B) = Inr dbb"
    and H: "\<forall>n \<in> set (get_neighbours ms (city_id A)). n \<noteq> city_id B \<and> n \<noteq> city_id A \<longrightarrow>
              (\<exists>x y. calc_cartesian_distance ops ms (city_id A) n = Inr x
                   \<and> calc_cartesian_distance ops ms (city_id B) n = Inr y
                   \<and> fl_less ops (fl_add ops (fl_add ops dab (fl_zero ops)) dbb)
                        (fl_add ops (fl_add ops x (fl_zero ops)) y))"
  shows "fst (search ops ms init A B)
           = Inr (Some \<lparr>cities_ids = [city_id A, city_id B],
                         cost = fl_add ops dab (fl_zero ops), evaluation = dbb\<rparr>)"
proof -
  let ?a = "city_id A" and ?b = "city_id B"
  let ?ini = "\<lparr>cities_ids = [?a], cost = fl_zero ops, evaluation = dab\<rparr>"
  let ?rb = "\<lparr>cities_ids = [?a, ?b], cost = fl_add ops dab (fl_zero ops), evaluation = dbb\<rparr>"
  let ?s2 = "\<lparr>fringe = [], visited = [?a]\<rparr> :: 'a GPSGreedyBestFirst"
  have hb: "heuristic ops ?rb = fl_add ops (fl_add ops dab (fl_zero ops)) dbb"
    by (simp add: heuristic_def)
  from direct_neighbours_loop [OF ord ab bb, of ?ini ?rb "get_neighbours ms ?a" ?s2] H hb
  obtain s3 where run: "neighbours_loop ops ms ?ini ?a B (get_neighbours ms ?a) ?s2 = (Inr (), s3)"
    and L: "rb \<in> set (fringe s3) \<longrightarrow> last (fringe s3) = rb"
    and rb: "rb \<in> set (fringe s3)" if "rb = ?rb" for rb
    using nb ne by auto
  from rb L have ne3: "fringe s3 \<noteq> []" and last: "last (fringe s3) = ?rb" by auto
  have t1: "search_turn ops ms B (add_route ops init ?ini) = Continue s3"
    using ne run
    by (simp add: search_turn_def add_route_def init_def next_route_def last_city_id_def
        add_routes_for_neighbours_def)
  have t2: "search_turn ops ms B s3
              = Return (Inr (Some ?rb)) (s3\<lparr>fringe := butlast (fringe s3)\<rparr>)"
    using ne3 last
    by (simp add: search_turn_def next_route_def last_city_id_def)
  show ?thesis
    using ab t1 t2
    by (simp add: search_def search_loop.simps [of ops ms B "add_route ops init ?ini"]
        search_loop.simps [of ops ms B s3])
qed

text \<open>
  Claim C6, amended. On a new engine, for \<open>A \<noteq> B\<close> with \<open>B\<close> in the neighbour list of
  \<open>A\<close>, \<open>dab\<close> the computed distance from \<open>A\<close> to \<open>B\<close> and \<open>dbb\<close> that from \<open>B\<close> to
  itself: if for every other neighbour \<open>n\<close> of \<open>A\<close> the score the code computes for the
  route \<open>[A, n]\<close>, the float sum \<open>(distance A n + 0) + distance B n\<close>, is strictly greater
  than the score \<open>(dab + 0) + dbb\<close> it computes for the route \<open>[A, B]\<close>, then \<open>search\<close>
  returns the route \<open>[A, B]\<close> with cost \<open>dab + 0\<close>. The law of the arithmetic used is
  that the comparison is irreflexive and transitive.
\<close>

theorem search_direct_neighbour:
  assumes ord: "float_order ops"
    and ne: "city_id A \<noteq> city_id B"
    and nb: "city_id B \<in> set (get_neighbours ms (city_id A))"
    and ab: "calc_cartesian_distance ops ms (city_id A) (city_id B) = Inr dab"
    and bb: "calc_cartesian_distance ops ms (city_id B) (city_id B) = Inr dbb"
    and H: "\<forall>n \<in> set (get_neighbours ms (city_id A)). n \<noteq> city_id B \<and> n \<noteq> city_id A \<longrightarrow>
              (\<exists>x y. calc_cartesian_distance ops ms (city_id A) n = Inr x
                   \<and> calc_cartesian_distance ops ms (city_id B) n = Inr y
                   \<and> fl_less ops (fl_add ops (fl_add ops dab (fl_zero ops)) dbb)
                        (fl_add ops (fl_add ops x (fl_zero ops)) y))"
  shows "fst (search ops ms init A B)
           = Inr (Some \<lparr>cities_ids = [city_id A, city_id B],
                         cost = fl_add ops dab (fl_zero ops), evaluation = dbb\<rparr>)"
  using ord ne nb ab bb H by (rule direct_neighbour_found)

lemma triangle_others:
  "\<forall>n \<in> set (get_neighbours triangle_map (city_id cityG)).
      n \<noteq> city_id cityH \<and> n \<noteq> city_id cityG \<longrightarrow>
      (\<exists>x y. calc_cartesian_distance exact_ops triangle_map (city_id cityG) n = Inr x
           \<and> calc_cartesian_distance exact_ops triangle_map (city_id cityH) n = Inr y
           \<and> fl_less exact_ops (fl_add exact_ops (fl_add exact_ops 5 (fl_zero exact_ops)) 0)
                (fl_add exact_ops (fl_add exact_ops x (fl_zero exact_ops)) y))"
  by (simp add: triangle_map_def cityG_def cityH_def calc_cartesian_distance_def getitem_def
      exact_ops_simps exact_square_small sqrt_9 sqrt_16)

text \<open>
  Witness for C6: in \<open>triangle_map\<close> from \<open>G\<close> to its neighbour \<open>H\<close>; the route over
  \<open>K\<close> has the score \<open>3 + 4\<close>, the direct one the score 5.
\<close>

theorem search_direct_neighbour_witness:
  "float_order exact_ops
   \<and> city_id cityG \<noteq> city_id cityH
   \<and> city_id cityH \<in> set (get_neighbours triangle_map (city_id cityG))
   \<and> calc_cartesian_distance exact_ops triangle_map (city_id cityG) (city_id cityH) = Inr 5
   \<and> calc_cartesian_distance exact_ops triangle_map (city_id cityH) (city_id cityH) = Inr 0
   \<and> get_neighbours triangle_map (city_id cityG) = [''K'', ''H'']
   \<and> calc_cartesian_distance exact_ops triangle_map (city_id cityG) ''K'' = Inr 3
   \<and> calc_cartesian_distance exact_ops triangle_map (city_id cityH) ''K'' = Inr 4
   \<and> fst (search exact_ops triangle_map init cityG cityH)
       = Inr (Some \<lparr>cities_ids = [''G'', ''H''], cost = 5, evaluation = 0\<rparr>)"
proof -
  note defs = triangle_map_def cityG_def cityH_def calc_cartesian_distance_def getitem_def
    exact_ops_simps exact_square_small
  have ne: "city_id cityG \<noteq> city_id cityH" by (simp add: cityG_def cityH_def)
  have nb: "city_id cityH \<in> set (get_neighbours triangle_map (city_id cityG))"
    by (simp add: defs)
  have ab: "calc_cartesian_distance exact_ops triangle_map (city_id cityG) (city_id cityH)
              = Inr 5"
    by (simp add: defs sqrt_25)
  have bb: "calc_cartesian_distance exact_ops triangle_map (city_id cityH) (city_id cityH)
              = Inr 0"
    by (simp add: defs)
  have ns: "get_neighbours triangle_map (city_id cityG) = [''K'', ''H'']" by (simp add: defs)
  have k1: "calc_cartesian_distance exact_ops triangle_map (city_id cityG) ''K'' = Inr 3"
    by (simp add: defs sqrt_9)
  have k2: "calc_cartesian_distance exact_ops triangle_map (city_id cityH) ''K'' = Inr 4"
    by (simp add: defs sqrt_16)
  from search_direct_neighbour [OF float_order_exact ne nb ab bb triangle_others]
  have "fst (search exact_ops triangle_map init cityG cityH)
       = Inr (Some \<lparr>cities_ids = [''G'', ''H''], cost = 5, evaluation = 0\<rparr>)"
    by (simp add: cityG_def cityH_def exact_ops_simps)
  with float_order_exact ne nb ab bb ns k1 k2 show ?thesis by blast
qed

text \<open>
  Claim C6 as stated fails: in \<open>line_map\<close> the city \<open>B\<close> is a neighbour of \<open>A\<close>, the
  route over \<open>N\<close> has the same score as the direct one and was added later, so it is
  popped first, and the search returns \<open>[A, N, B]\<close>.
\<close>

theorem search_direct_neighbour_counterexample:
  "city_id lineB \<in> set (get_neighbours line_map (city_id lineA))
   \<and> search exact_ops line_map init lineA lineB
       = (Inr (Some \<lparr>cities_ids = [''A'', ''N'', ''B''], cost = 2, evaluation = 0\<rparr>),
          \<lparr>fringe = [\<lparr>cities_ids = [''A'', ''B''], cost = 2, evaluation = 0\<rparr>],
           visited = [''A'', ''N'']\<rparr>)"
  by (simp add: run_simps line_map_def lineA_def lineB_def)

section \<open>The unreachable destination\<close>

lemma reachable_refl: "a \<in> reachable ms a"
  by (simp add: reachable_def)

lemma reachable_step: "v \<in> reachable ms a \<Longrightarrow> n \<in> set (get_neighbours ms v) \<Longrightarrow> n \<in> reachable ms a"
  by (auto simp: reachable_def intro: rtrancl_into_rtrancl)

lemma neighbour_keys_closed: "keys_closed ms \<Longrightarrow> neighbour_keys ms \<subseteq> fst ` set ms"
  by (auto simp: keys_closed_def neighbour_keys_def)

lemma reachable_names:
  assumes "keys_closed ms" "a \<in> fst ` set ms" "b \<in> reachable ms a"
  shows "b \<in> fst ` set ms"
proof -
  from assms(3) have "(a, b) \<in> {(x, y). y \<in> set (get_neighbours ms x)}\<^sup>*"
    by (simp add: reachable_def)
  then show ?thesis
  proof (induction rule: rtrancl_induct)
    case base
    show ?case by (rule assms(2))
  next
    case (step y z)
    then have "z \<in> set (get_neighbours ms y)" by simp
    with get_neighbours_subset[of ms y] neighbour_keys_closed[OF assms(1)] show ?case by blast
  qed
qed

lemma reachable_closed:
  assumes "a \<in> V" and "\<forall>v \<in> V. set (get_neighbours ms v) \<subseteq> V"
  shows "reachable ms a \<subseteq> V"
proof
  fix b
  assume "b \<in> reachable ms a"
  then have "(a, b) \<in> {(x, y). y \<in> set (get_neighbours ms x)}\<^sup>*"
    by (simp add: reachable_def)
  then show "b \<in> V"
    by (induction rule: rtrancl_induct) (use assms in auto)
qed

lemma calc_defined:
  "distances_defined ops ms \<Longrightarrow> a \<in> fst ` set ms \<Longrightarrow> b \<in> fst ` set ms
     \<Longrightarrow> \<exists>x. calc_cartesian_distance ops ms a b = Inr x"
  unfolding distances_defined_def by blast

lemma neighbours_loop_ok:
  assumes dd: "distances_defined ops ms"
    and "k \<in> fst ` set ms" "city_id d \<in> fst ` set ms" "set ns \<subseteq> fst ` set ms"
  shows "\<exists>s'. neighbours_loop ops ms route k d ns s = (Inr (), s')
           \<and> visited s' = visited s
           \<and> set (fringe s) \<subseteq> set (fringe s')
           \<and> set ns - set (visited s) \<subseteq> target ` set (fringe s')
           \<and> (\<forall>r \<in> set (fringe s'). r \<in> set (fringe s) \<or> (cities_ids r \<noteq> [] \<and> target r \<in> set ns))"
  using assms(4)
proof (induction ns arbitrary: s)
  case Nil
  then show ?case by simp
next
  case (Cons n ns)
  then have sub: "set ns \<subseteq> fst ` set ms" and n: "n \<in> fst ` set ms" by simp_all
  show ?case
  proof (cases "n \<in> set (visited s)")
    case True
    from Cons.IH[OF sub, of s] obtain s' where
      "neighbours_loop ops ms route k d ns s = (Inr (), s')" "visited s' = visited s"
      "set (fringe s) \<subseteq> set (fringe s')" "set ns - set (visited s) \<subseteq> target ` set (fringe s')"
      "\<forall>r \<in> set (fringe s'). r \<in> set (fringe s) \<or> (cities_ids r \<noteq> [] \<and> target r \<in> set ns)"
      by blast
    with True show ?thesis by auto
  next
    case False
    from calc_defined[OF dd assms(2) n] obtain dl where dl: "calc_cartesian_distance ops ms k n = Inr dl" ..
    from calc_defined[OF dd assms(3) n] obtain dd where dd: "calc_cartesian_distance ops ms (city_id d) n = Inr dd" ..
    let ?r = "\<lparr>cities_ids = cities_ids route @ [n], cost = fl_add ops dl (cost route), evaluation = dd\<rparr>"
    let ?s1 = "add_route ops s ?r"
    have s1: "visited ?s1 = visited s" "set (fringe ?s1) = insert ?r (set (fringe s))"
      by (simp_all add: add_route_def set_insert_scan)
    have tr: "target ?r = n" "cities_ids ?r \<noteq> []" by (simp_all add: target_def)
    from Cons.IH[OF sub, of ?s1] obtain s' where
      run: "neighbours_loop ops ms route k d ns ?s1 = (Inr (), s')" and v: "visited s' = visited ?s1"
      and f: "set (fringe ?s1) \<subseteq> set (fringe s')"
      and t: "set ns - set (visited ?s1) \<subseteq> target ` set (fringe s')"
      and o: "\<forall>r \<in> set (fringe s'). r \<in> set (fringe ?s1) \<or> (cities_ids r \<noteq> [] \<and> target r \<in> set ns)"
      by blast
    have 1: "neighbours_loop ops ms route k d (n # ns) s = (Inr (), s')"
      using False dl dd run by simp
    have 2: "visited s' = visited s" using v s1 by simp
    have 3: "set (fringe s) \<subseteq> set (fringe s')" using f s1 by auto
    have "?r \<in> set (fringe s')" using f s1 by auto
    then have "n \<in> target ` set (fringe s')" using tr(1) by force
    then have 4: "set (n # ns) - set (visited s) \<subseteq> target ` set (fringe s')"
      using t s1 by auto
    have 5: "\<forall>r \<in> set (fringe s'). r \<in> set (fringe s) \<or> (cities_ids r \<noteq> [] \<and> target r \<in> set (n # ns))"
      using o s1 tr by auto
    from 1 2 3 4 5 show ?thesis by blast
  qed
qed

lemma search_turn_inv:
  assumes inv: "search_inv ms a s" and ne: "fringe s \<noteq> []"
    and closed: "keys_closed ms" and a: "a \<in> fst ` set ms" and d: "city_id d \<in> fst ` set ms"
    and dd: "distances_defined ops ms"
    and unreach: "city_id d \<notin> reachable ms a"
  shows "\<exists>s'. search_turn ops ms d s = Continue s' \<and> search_inv ms a s'"
proof -
  let ?curr = "last (fringe s)"
  let ?k = "target ?curr"
  let ?s2 = "s\<lparr>fringe := butlast (fringe s), visited := visited s @ [?k]\<rparr>"
  let ?ns = "get_neighbours ms ?k"
  from ne have cin: "?curr \<in> set (fringe s)" by simp
  with inv have cne: "cities_ids ?curr \<noteq> []" and kR: "?k \<in> reachable ms a"
    by (auto simp: search_inv_def)
  from kR unreach have kd: "?k \<noteq> city_id d" by auto
  have kn: "?k \<in> fst ` set ms" using reachable_names[OF closed a kR] .
  have nsR: "set ?ns \<subseteq> reachable ms a" using kR by (auto intro: reachable_step)
  then have nsn: "set ?ns \<subseteq> fst ` set ms" using reachable_names[OF closed a] by blast
  from neighbours_loop_ok[OF dd kn d nsn, of ?curr ?s2] obtain s' where
    run: "neighbours_loop ops ms ?curr ?k d ?ns ?s2 = (Inr (), s')"
    and v: "visited s' = visited s @ [?k]"
    and f: "set (butlast (fringe s)) \<subseteq> set (fringe s')"
    and t: "set ?ns - set (visited s @ [?k]) \<subseteq> target ` set (fringe s')"
    and o: "\<forall>r \<in> set (fringe s'). r \<in> set (butlast (fringe s)) \<or> (cities_ids r \<noteq> [] \<and> target r \<in> set ?ns)"
    by auto
  have turn: "search_turn ops ms d s = Continue s'"
    using ne cne kd run
    by (simp add: search_turn_def next_route_def last_city_id_def add_routes_for_neighbours_def
        target_def)
  have old: "target ` set (fringe s) \<subseteq> set (visited s') \<union> target ` set (fringe s')"
  proof
    fix x assume "x \<in> target ` set (fringe s)"
    then obtain r where r: "r \<in> set (fringe s)" "x = target r" by auto
    from ne have "fringe s = butlast (fringe s) @ [?curr]" by simp
    with r(1) have "r \<in> set (butlast (fringe s)) \<or> r = ?curr"
      by (metis Un_iff empty_iff insert_iff list.set(1) list.set(2) set_append)
    then show "x \<in> set (visited s') \<union> target ` set (fringe s')"
      using f r(2) v by auto
  qed
  have i1: "\<forall>r \<in> set (fringe s'). cities_ids r \<noteq> [] \<and> target r \<in> reachable ms a"
  proof
    fix r assume "r \<in> set (fringe s')"
    with o have "r \<in> set (butlast (fringe s)) \<or> (cities_ids r \<noteq> [] \<and> target r \<in> set ?ns)" by blast
    then show "cities_ids r \<noteq> [] \<and> target r \<in> reachable ms a"
      using inv nsR by (auto simp: search_inv_def dest: in_set_butlastD)
  qed
  have i2: "set (visited s') \<subseteq> reachable ms a"
    using inv v kR by (auto simp: search_inv_def)
  have i3: "a \<in> set (visited s') \<union> target ` set (fringe s')"
    using inv old v by (auto simp: search_inv_def)
  have i4: "\<forall>w \<in> set (visited s').
            set (get_neighbours ms w) \<subseteq> set (visited s') \<union> target ` set (fringe s')"
  proof
    fix w assume "w \<in> set (visited s')"
    then have "w \<in> set (visited s) \<or> w = ?k" using v by auto
    then show "set (get_neighbours ms w) \<subseteq> set (visited s') \<union> target ` set (fringe s')"
    proof
      assume "w \<in> set (visited s)"
      with inv have "set (get_neighbours ms w) \<subseteq> set (visited s) \<union> target ` set (fringe s)"
        by (simp add: search_inv_def)
      moreover have "set (visited s) \<subseteq> set (visited s')" using v by auto
      ultimately show ?thesis using old by blast
    next
      assume "w = ?k"
      with t v show ?thesis by auto
    qed
  qed
  from i1 i2 i3 i4 have "search_inv ms a s'" by (simp add: search_inv_def)
  with turn show ?thesis by blast
qed

lemma search_loop_exhausts:
  assumes closed: "keys_closed ms" and a: "a \<in> fst ` set ms" and d: "city_id d \<in> fst ` set ms"
    and dd: "distances_defined ops ms"
    and unreach: "city_id d \<notin> reachable ms a"
  shows "search_inv ms a s \<Longrightarrow>
     \<exists>s'. search_loop ops ms d s = (Inr None, s') \<and> fringe s' = [] \<and> search_inv ms a s'"
  using closed a d dd unreach
proof (induction ops ms d s rule: search_loop.induct)
  case (1 ops ms d s)
  note closed = "1.prems"(2) and a = "1.prems"(3) and d = "1.prems"(4) and dd = "1.prems"(5)
    and unreach = "1.prems"(6)
  show ?case
  proof (cases "fringe s = []")
    case True
    with "1.prems"(1) show ?thesis
      by (simp add: search_loop.simps [of ops ms d s] search_turn_def)
  next
    case False
    from search_turn_inv [OF "1.prems"(1) False closed a d dd unreach] obtain s1 where
      turn: "search_turn ops ms d s = Continue s1" and inv1: "search_inv ms a s1" by blast
    from "1.IH" [OF turn inv1 closed a d dd unreach] turn show ?thesis
      by (simp add: search_loop.simps [of ops ms d s])
  qed
qed

lemma search_loop_empty: "fringe s = [] \<Longrightarrow> search_loop ops ms d s = (Inr None, s)"
  by (simp add: search_loop.simps [of ops ms d s] search_turn_def)

lemma turn_steps_search_loop:
  "(turn_step ops ms d)\<^sup>*\<^sup>* s s' \<Longrightarrow> search_loop ops ms d s = search_loop ops ms d s'"
proof (induction rule: rtranclp_induct)
  case base
  show ?case by simp
next
  case (step y z)
  from step.hyps(2) have "search_loop ops ms d y = search_loop ops ms d z"
    by (simp add: turn_step_def search_loop.simps [of ops ms d y])
  with step.IH show ?case by simp
qed

text \<open>
  Claim C7, amended. Whenever the loop of a call of \<open>search\<close>, started on any engine,
  finds the fringe empty after any number of turns, the call returns \<open>None\<close> with the
  state of that moment. On a new engine, in a graph whose neighbour keys all name members
  and in which the distance between any two members is computed without overflow, with
  origin and destination in the graph: if the destination is not reachable from the
  origin over neighbour links, \<open>search\<close> returns \<open>None\<close> (no exception) with an empty
  fringe, and the keys of the visited list are exactly the keys reachable from the
  origin. (Each occurs at least once; the counterexample shows one occurring three
  times.)
\<close>

theorem search_unreachable:
  "(\<forall>x s1. calc_cartesian_distance ops ms (city_id origin) (city_id destination) = Inr x
        \<and> (turn_step ops ms destination)\<^sup>*\<^sup>*
             (add_route ops s \<lparr>cities_ids = [city_id origin], cost = fl_zero ops,
                               evaluation = x\<rparr>) s1
        \<and> fringe s1 = []
      \<longrightarrow> search ops ms s origin destination = (Inr None, s1))
   \<and> (keys_closed ms \<and> distances_defined ops ms
        \<and> city_id origin \<in> fst ` set ms \<and> city_id destination \<in> fst ` set ms
        \<and> city_id destination \<notin> reachable ms (city_id origin)
      \<longrightarrow> (\<exists>s'. search ops ms init origin destination = (Inr None, s') \<and> fringe s' = []
                \<and> set (visited s') = reachable ms (city_id origin)))"
proof (intro conjI impI allI)
  fix x s1
  assume a: "calc_cartesian_distance ops ms (city_id origin) (city_id destination) = Inr x
        \<and> (turn_step ops ms destination)\<^sup>*\<^sup>*
             (add_route ops s \<lparr>cities_ids = [city_id origin], cost = fl_zero ops,
                               evaluation = x\<rparr>) s1
        \<and> fringe s1 = []"
  then have "search_loop ops ms destination
               (add_route ops s \<lparr>cities_ids = [city_id origin], cost = fl_zero ops,
                                 evaluation = x\<rparr>)
             = search_loop ops ms destination s1"
    by (intro turn_steps_search_loop) simp
  also from a have "\<dots> = (Inr None, s1)" by (simp add: search_loop_empty)
  finally show "search ops ms s origin destination = (Inr None, s1)"
    using a by (simp add: search_def)
next
  assume h: "keys_closed ms \<and> distances_defined ops ms
        \<and> city_id origin \<in> fst ` set ms \<and> city_id destination \<in> fst ` set ms
        \<and> city_id destination \<notin> reachable ms (city_id origin)"
  then have closed: "keys_closed ms" and dd: "distances_defined ops ms"
    and o: "city_id origin \<in> fst ` set ms" and d: "city_id destination \<in> fst ` set ms"
    and unreach: "city_id destination \<notin> reachable ms (city_id origin)" by simp_all
  from calc_defined [OF dd o d] obtain x where
    x: "calc_cartesian_distance ops ms (city_id origin) (city_id destination) = Inr x" ..
  let ?s0 = "add_route ops init
               \<lparr>cities_ids = [city_id origin], cost = fl_zero ops, evaluation = x\<rparr>"
  have "search_inv ms (city_id origin) ?s0"
    by (simp add: search_inv_def add_route_def init_def target_def reachable_refl)
  from search_loop_exhausts [OF closed o d dd unreach this] obtain s' where
    s': "search_loop ops ms destination ?s0 = (Inr None, s')" "fringe s' = []"
      "search_inv ms (city_id origin) s'" by blast
  from s'(2,3) have "reachable ms (city_id origin) \<subseteq> set (visited s')"
    by (intro reachable_closed) (auto simp: search_inv_def)
  moreover from s'(3) have "set (visited s') \<subseteq> reachable ms (city_id origin)"
    by (simp add: search_inv_def)
  ultimately show "\<exists>s'. search ops ms init origin destination = (Inr None, s') \<and> fringe s' = []
                \<and> set (visited s') = reachable ms (city_id origin)"
    using s'(1,2) x by (auto simp: search_def)
qed

lemma clique_reachable: "reachable clique_map ''A'' \<subseteq> {''A'', ''B'', ''C'', ''E''}"
  by (rule reachable_closed) (simp_all add: clique_map_def cityA_def cityZ_def)

lemma clique_reach_B: "''B'' \<in> reachable clique_map ''A''"
  by (rule reachable_step [OF reachable_refl]) (simp add: clique_map_def cityA_def)

lemma clique_distances: "distances_defined exact_ops clique_map"
  by (simp add: distances_defined_def clique_map_def cityA_def cityZ_def
      calc_cartesian_distance_def getitem_def exact_ops_simps exact_square_small)

text \<open>
  Witness for C7 in \<open>clique_map\<close>: from \<open>Z\<close> to \<open>A\<close> the fringe is empty after one
  turn; \<open>Z\<close> is not reachable from \<open>A\<close>.
\<close>

theorem search_unreachable_witness:
  "calc_cartesian_distance exact_ops clique_map (city_id cityZ) (city_id cityA) = Inr 4
   \<and> (turn_step exact_ops clique_map cityA)\<^sup>*\<^sup>*
        (add_route exact_ops init \<lparr>cities_ids = [city_id cityZ], cost = fl_zero exact_ops,
                                   evaluation = 4\<rparr>)
        \<lparr>fringe = [], visited = [''Z'']\<rparr>
   \<and> fringe (\<lparr>fringe = [], visited = [''Z'']\<rparr> :: real GPSGreedyBestFirst) = []
   \<and> search exact_ops clique_map init cityZ cityA
       = (Inr None, \<lparr>fringe = [], visited = [''Z'']\<rparr>)
   \<and> keys_closed clique_map
   \<and> distances_defined exact_ops clique_map
   \<and> city_id cityA \<in> fst ` set clique_map
   \<and> city_id cityZ \<in> fst ` set clique_map
   \<and> city_id cityZ \<notin> reachable clique_map (city_id cityA)
   \<and> (\<exists>s'. search exact_ops clique_map init cityA cityZ = (Inr None, s') \<and> fringe s' = []
           \<and> set (visited s') = reachable clique_map (city_id cityA))"
proof -
  let ?s1 = "\<lparr>fringe = [], visited = [''Z'']\<rparr> :: real GPSGreedyBestFirst"
  let ?s0 = "add_route exact_ops init
               \<lparr>cities_ids = [city_id cityZ], cost = fl_zero exact_ops, evaluation = 4\<rparr>"
  have x: "calc_cartesian_distance exact_ops clique_map (city_id cityZ) (city_id cityA) = Inr 4"
    by (simp add: calc_cartesian_distance_def getitem_def clique_map_def cityA_def cityZ_def
        exact_ops_simps exact_square_small sqrt_16)
  have "turn_step exact_ops clique_map cityA ?s0 ?s1"
    by (simp add: turn_step_def search_turn_def next_route_def last_city_id_def
        add_routes_for_neighbours_def add_route_def init_def clique_map_def cityA_def cityZ_def)
  then have t: "(turn_step exact_ops clique_map cityA)\<^sup>*\<^sup>* ?s0 ?s1" by (rule r_into_rtranclp)
  have e: "fringe ?s1 = []" by simp
  from search_unreachable [of exact_ops clique_map cityZ cityA init] x t e
  have r: "search exact_ops clique_map init cityZ cityA = (Inr None, ?s1)" by blast
  have c: "keys_closed clique_map"
    by (simp add: keys_closed_def clique_map_def cityA_def cityZ_def)
  have a: "city_id cityA \<in> fst ` set clique_map" by (simp add: clique_map_def cityA_def)
  have z: "city_id cityZ \<in> fst ` set clique_map" by (simp add: clique_map_def cityZ_def)
  have u: "city_id cityZ \<notin> reachable clique_map (city_id cityA)"
    using clique_reachable by (auto simp: cityA_def cityZ_def)
  from search_unreachable [of exact_ops clique_map cityA cityZ init] c clique_distances a z u
  have "\<exists>s'. search exact_ops clique_map init cityA cityZ = (Inr None, s') \<and> fringe s' = []
           \<and> set (visited s') = reachable clique_map (city_id cityA)" by blast
  with x t e r c clique_distances a z u show ?thesis by blast
qed

text \<open>
  Claim C7 as stated fails in its last part: in the search from \<open>A\<close> to \<open>Z\<close> the visited
  list holds \<open>B\<close> three times and \<open>C\<close> twice, not every reachable key exactly once.
\<close>

theorem search_unreachable_counterexample:
  "city_id cityZ \<notin> reachable clique_map (city_id cityA)
   \<and> ''B'' \<in> reachable clique_map (city_id cityA)
   \<and> search exact_ops clique_map init cityA cityZ
       = (Inr None, \<lparr>fringe = [], visited = [''A'', ''E'', ''C'', ''B'', ''B'', ''C'', ''B'']\<rparr>)
   \<and> count_list [''A'', ''E'', ''C'', ''B'', ''B'', ''C'', ''B''] ''B'' = 3"
proof -
  have u: "city_id cityZ \<notin> reachable clique_map (city_id cityA)"
    using clique_reachable by (auto simp: cityA_def cityZ_def)
  have b: "''B'' \<in> reachable clique_map (city_id cityA)"
    using clique_reach_B by (simp add: cityA_def)
  have s: "search exact_ops clique_map init cityA cityZ
       = (Inr None, \<lparr>fringe = [], visited = [''A'', ''E'', ''C'', ''B'', ''B'', ''C'', ''B'']\<rparr>)"
    by (simp add: run_simps clique_map_def cityA_def cityZ_def sqrt_9 sqrt_16)
  have n: "count_list [''A'', ''E'', ''C'', ''B'', ''B'', ''C'', ''B''] ''B'' = 3" by simp
  from u b s n show ?thesis by blast
qed

section \<open>Two searches on one engine\<close>

lemma search_turn_found:
  assumes "search_turn ops ms d s = Return (Inr (Some r)) s'"
  shows "fringe s \<noteq> [] \<and> r = last (fringe s) \<and> ends_in (city_id d) r
         \<and> s' = s\<lparr>fringe := butlast (fringe s)\<rparr>"
  using assms
  by (auto simp: search_turn_def next_route_def ends_in_def
      split: if_splits sum.splits prod.splits)

lemma search_loop_never_found:
  "city_id d \<in> set (visited s) \<Longrightarrow> filter (ends_in (city_id d)) (fringe s) = []
     \<Longrightarrow> fst (search_loop ops ms d s) \<noteq> Inr (Some r)"
proof (induction ops ms d s rule: search_loop.induct)
  case (1 ops ms d s)
  show ?case
  proof (cases "search_turn ops ms d s")
    case (Return res s')
    have "res \<noteq> Inr (Some r)"
    proof
      assume "res = Inr (Some r)"
      with Return have "search_turn ops ms d s = Return (Inr (Some r)) s'" by simp
      from search_turn_found[OF this]
      have "fringe s \<noteq> []" "r = last (fringe s)" "ends_in (city_id d) r" by blast+
      then have "r \<in> set (filter (ends_in (city_id d)) (fringe s))" by simp
      with "1.prems"(2) show False by simp
    qed
    with Return show ?thesis by (simp add: search_loop.simps [of ops ms d s])
  next
    case (Continue s')
    then have ts: "turn_state (search_turn ops ms d s) = s'" by (simp add: turn_state_def)
    from search_turn_ends_in[OF "1.prems"(1), of ops ms d] ts "1.prems"(2)
    have "city_id d \<in> set (visited s')" "filter (ends_in (city_id d)) (fringe s') = []"
      by simp_all
    from "1.IH"[OF Continue this] Continue show ?thesis
      by (simp add: search_loop.simps [of ops ms d s])
  qed
qed

text \<open>In a graph whose neighbour keys all name members the loop raises nothing.\<close>

lemma search_turn_no_error:
  assumes closed: "keys_closed ms" and dd: "distances_defined ops ms"
    and d: "city_id d \<in> fst ` set ms"
    and ok: "\<forall>r \<in> set (fringe s). cities_ids r \<noteq> [] \<and> target r \<in> fst ` set ms"
  shows "(\<exists>res s'. search_turn ops ms d s = Return (Inr res) s')
         \<or> (\<exists>s'. search_turn ops ms d s = Continue s'
               \<and> (\<forall>r \<in> set (fringe s'). cities_ids r \<noteq> [] \<and> target r \<in> fst ` set ms))"
proof (cases "fringe s = []")
  case True
  then show ?thesis by (simp add: search_turn_def)
next
  case ne: False
  let ?curr = "last (fringe s)"
  let ?k = "target ?curr"
  let ?s2 = "s\<lparr>fringe := butlast (fringe s), visited := visited s @ [?k]\<rparr>"
  let ?ns = "get_neighbours ms ?k"
  from ne ok have cne: "cities_ids ?curr \<noteq> []" and kn: "?k \<in> fst ` set ms" by simp_all
  show ?thesis
  proof (cases "?k = city_id d")
    case True
    with ne cne show ?thesis
      by (simp add: search_turn_def next_route_def last_city_id_def target_def)
  next
    case False
    have nsn: "set ?ns \<subseteq> fst ` set ms"
      using get_neighbours_subset [of ms ?k] neighbour_keys_closed [OF closed] by blast
    from neighbours_loop_ok [OF dd kn d nsn, of ?curr ?s2] obtain s' where
      run: "neighbours_loop ops ms ?curr ?k d ?ns ?s2 = (Inr (), s')"
      and o: "\<forall>r \<in> set (fringe s'). r \<in> set (butlast (fringe s))
                \<or> (cities_ids r \<noteq> [] \<and> target r \<in> set ?ns)"
      by auto
    have turn: "search_turn ops ms d s = Continue s'"
      using ne cne False run
      by (simp add: search_turn_def next_route_def last_city_id_def
          add_routes_for_neighbours_def target_def)
    have "\<forall>r \<in> set (fringe s'). cities_ids r \<noteq> [] \<and> target r \<in> fst ` set ms"
    proof
      fix r assume "r \<in> set (fringe s')"
      with o have "r \<in> set (butlast (fringe s)) \<or> (cities_ids r \<noteq> [] \<and> target r \<in> set ?ns)"
        by blast
      then show "cities_ids r \<noteq> [] \<and> target r \<in> fst ` set ms"
        using ok nsn by (auto dest: in_set_butlastD)
    qed
    with turn show ?thesis by blast
  qed
qed

lemma search_loop_no_error:
  "keys_closed ms \<Longrightarrow> distances_defined ops ms \<Longrightarrow> city_id d \<in> fst ` set ms
   \<Longrightarrow> \<forall>r \<in> set (fringe s). cities_ids r \<noteq> [] \<and> target r \<in> fst ` set ms
   \<Longrightarrow> \<exists>res s'. search_loop ops ms d s = (Inr res, s')"
proof (induction ops ms d s rule: search_loop.induct)
  case (1 ops ms d s)
  from search_turn_no_error [OF "1.prems"]
  show ?case
  proof
    assume "\<exists>res s'. search_turn ops ms d s = Return (Inr res) s'"
    then show ?thesis by (auto simp: search_loop.simps [of ops ms d s])
  next
    assume "\<exists>s'. search_turn ops ms d s = Continue s'
               \<and> (\<forall>r \<in> set (fringe s'). cities_ids r \<noteq> [] \<and> target r \<in> fst ` set ms)"
    then obtain s' where turn: "search_turn ops ms d s = Continue s'"
      and ok: "\<forall>r \<in> set (fringe s'). cities_ids r \<noteq> [] \<and> target r \<in> fst ` set ms" by blast
    from "1.IH" [OF turn "1.prems"(1,2,3) ok] turn show ?thesis
      by (simp add: search_loop.simps [of ops ms d s])
  qed
qed


lemma Map_closed: "keys_closed (Map ops)"
  by (simp add: keys_closed_def Map_simps)

text \<open>
  Claim C2 against the code. \<open>search\<close> starts from the state the engine is in: nothing
  resets the fringe or the visited list. After the search from Formiga to Piracanjuba on
  a new engine the visited list is \<open>[Formiga]\<close>, and the next search on that engine
  starts with it. A new engine finds the route from Piracanjuba to its neighbour Formiga;
  the used engine returns \<open>None\<close> for the same request, since Formiga counts as visited.
  What is assumed of the arithmetic: the comparison is irreflexive and transitive, no
  distance between two cities of \<open>Map\<close> overflows, \<open>dfp\<close>, \<open>dpp\<close>, \<open>dpf\<close> and \<open>dff\<close>
  are the four distances computed, and the route from Piracanjuba to each of its other
  neighbours gets a score strictly greater than the route to Formiga.
\<close>

theorem search_twice:
  assumes ord: "float_order ops"
    and dd: "distances_defined ops (Map ops)"
    and fp: "calc_cartesian_distance ops (Map ops) ''Formiga'' ''Piracanjuba'' = Inr dfp"
    and pp: "calc_cartesian_distance ops (Map ops) ''Piracanjuba'' ''Piracanjuba'' = Inr dpp"
    and pf: "calc_cartesian_distance ops (Map ops) ''Piracanjuba'' ''Formiga'' = Inr dpf"
    and ff: "calc_cartesian_distance ops (Map ops) ''Formiga'' ''Formiga'' = Inr dff"
    and others: "\<forall>n \<in> set [''BelaVista'', ''ProfJamil'', ''CaldasNovas'', ''Cristianopolis''].
       \<exists>x y. calc_cartesian_distance ops (Map ops) ''Piracanjuba'' n = Inr x
            \<and> calc_cartesian_distance ops (Map ops) ''Formiga'' n = Inr y
            \<and> fl_less ops (fl_add ops (fl_add ops dpf (fl_zero ops)) dff)
                 (fl_add ops (fl_add ops x (fl_zero ops)) y)"
  shows "search ops (Map ops) init (Formiga ops) (Piracanjuba ops)
           = (Inr (Some \<lparr>cities_ids = [''Formiga'', ''Piracanjuba''],
                         cost = fl_add ops dfp (fl_zero ops), evaluation = dpp\<rparr>),
              \<lparr>fringe = [], visited = [''Formiga'']\<rparr>)
         \<and> fst (search ops (Map ops) init (Piracanjuba ops) (Formiga ops))
             = Inr (Some \<lparr>cities_ids = [''Piracanjuba'', ''Formiga''],
                           cost = fl_add ops dpf (fl_zero ops), evaluation = dff\<rparr>)
         \<and> fst (search ops (Map ops)
                  (snd (search ops (Map ops) init (Formiga ops) (Piracanjuba ops)))
                  (Piracanjuba ops) (Formiga ops))
             = Inr None"
proof -
  let ?s1 = "\<lparr>fringe = [], visited = [''Formiga'']\<rparr> :: 'a GPSGreedyBestFirst"
  have idF: "city_id (Formiga ops) = ''Formiga''" by (simp add: Formiga_def)
  have idP: "city_id (Piracanjuba ops) = ''Piracanjuba''" by (simp add: Piracanjuba_def)
  have nF: "get_neighbours (Map ops) ''Formiga'' = [''Piracanjuba'']" by (simp add: Map_simps)
  have nP: "get_neighbours (Map ops) ''Piracanjuba''
              = [''BelaVista'', ''ProfJamil'', ''CaldasNovas'', ''Cristianopolis'', ''Formiga'']"
    by (simp add: Map_simps)
  have first: "search ops (Map ops) init (Formiga ops) (Piracanjuba ops)
           = (Inr (Some \<lparr>cities_ids = [''Formiga'', ''Piracanjuba''],
                         cost = fl_add ops dfp (fl_zero ops), evaluation = dpp\<rparr>), ?s1)"
    using fp pp
    by (simp add: search_def init_def add_route_def search_loop.simps search_turn_def
        next_route_def last_city_id_def add_routes_for_neighbours_def idF idP nF)
  have "fst (search ops (Map ops) init (Piracanjuba ops) (Formiga ops))
       = Inr (Some \<lparr>cities_ids = [city_id (Piracanjuba ops), city_id (Formiga ops)],
                     cost = fl_add ops dpf (fl_zero ops), evaluation = dff\<rparr>)"
  proof (rule direct_neighbour_found [OF ord])
    show "city_id (Piracanjuba ops) \<noteq> city_id (Formiga ops)" by (simp add: idF idP)
    show "city_id (Formiga ops) \<in> set (get_neighbours (Map ops) (city_id (Piracanjuba ops)))"
      by (simp add: idF idP nP)
    show "calc_cartesian_distance ops (Map ops) (city_id (Piracanjuba ops)) (city_id (Formiga ops))
            = Inr dpf"
      using pf by (simp add: idF idP)
    show "calc_cartesian_distance ops (Map ops) (city_id (Formiga ops)) (city_id (Formiga ops))
            = Inr dff"
      using ff by (simp add: idF)
    show "\<forall>n \<in> set (get_neighbours (Map ops) (city_id (Piracanjuba ops))).
          n \<noteq> city_id (Formiga ops) \<and> n \<noteq> city_id (Piracanjuba ops) \<longrightarrow>
          (\<exists>x y. calc_cartesian_distance ops (Map ops) (city_id (Piracanjuba ops)) n = Inr x
             \<and> calc_cartesian_distance ops (Map ops) (city_id (Formiga ops)) n = Inr y
             \<and> fl_less ops (fl_add ops (fl_add ops dpf (fl_zero ops)) dff)
                  (fl_add ops (fl_add ops x (fl_zero ops)) y))"
      using others by (simp add: idF idP nP)
  qed
  then have fresh: "fst (search ops (Map ops) init (Piracanjuba ops) (Formiga ops))
       = Inr (Some \<lparr>cities_ids = [''Piracanjuba'', ''Formiga''],
                     cost = fl_add ops dpf (fl_zero ops), evaluation = dff\<rparr>)"
    by (simp add: idF idP)
  let ?ini = "\<lparr>cities_ids = [''Piracanjuba''], cost = fl_zero ops, evaluation = dpf\<rparr>"
  let ?s2 = "add_route ops ?s1 ?ini"
  have loop: "search ops (Map ops) ?s1 (Piracanjuba ops) (Formiga ops)
                = search_loop ops (Map ops) (Formiga ops) ?s2"
    using pf by (simp add: search_def idF idP)
  have "city_id (Formiga ops) \<in> set (visited ?s2)"
    by (simp add: add_route_def idF)
  moreover have "filter (ends_in (city_id (Formiga ops))) (fringe ?s2) = []"
    by (simp add: add_route_def ends_in_def last_city_id_def idF)
  ultimately have never: "fst (search_loop ops (Map ops) (Formiga ops) ?s2) \<noteq> Inr (Some r)" for r
    by (rule search_loop_never_found)
  have "city_id (Formiga ops) \<in> fst ` set (Map ops)" by (simp add: Map_def idF)
  moreover have "\<forall>r \<in> set (fringe ?s2). cities_ids r \<noteq> [] \<and> target r \<in> fst ` set (Map ops)"
    by (simp add: add_route_def target_def Map_def)
  ultimately obtain res s' where "search_loop ops (Map ops) (Formiga ops) ?s2 = (Inr res, s')"
    using search_loop_no_error [OF Map_closed dd] by blast
  with never have "fst (search_loop ops (Map ops) (Formiga ops) ?s2) = Inr None"
    by (cases res) auto
  with first fresh loop show ?thesis by simp
qed


text \<open>Exact arithmetic never overflows on a table whose coordinates lie within 8 of a
  common point.\<close>

lemma distances_defined_exact:
  assumes near: "\<forall>c \<in> snd ` set ms. \<bar>latitude c - l0\<bar> \<le> 8 \<and> \<bar>longitude c - m0\<bar> \<le> 8"
  shows "distances_defined exact_ops ms"
  unfolding distances_defined_def
proof (intro ballI)
  fix a b assume "a \<in> fst ` set ms" "b \<in> fst ` set ms"
  then obtain ca cb where a: "map_of ms a = Some ca" and b: "map_of ms b = Some cb"
    by (metis map_of_eq_None_iff not_Some_eq)
  then have "ca \<in> snd ` set ms" "cb \<in> snd ` set ms"
    by (force dest: map_of_SomeD)+
  with near have "\<bar>latitude ca - l0\<bar> \<le> 8" "\<bar>latitude cb - l0\<bar> \<le> 8"
    "\<bar>longitude ca - m0\<bar> \<le> 8" "\<bar>longitude cb - m0\<bar> \<le> 8" by blast+
  then have "\<bar>latitude ca - latitude cb\<bar> \<le> 16" "\<bar>longitude ca - longitude cb\<bar> \<le> 16"
    by linarith+
  with a b show "\<exists>x. calc_cartesian_distance exact_ops ms a b = Inr x"
    by (simp add: calc_cartesian_distance_def getitem_def exact_ops_simps exact_square_small)
qed

lemma Map_distances: "distances_defined exact_ops (Map exact_ops)"
  by (rule distances_defined_exact [where ?l0.0 = "-17" and ?m0.0 = "-49"])
    (simp add: Map_simps exact_ops_simps)

lemma sqrt_less_add: "0 \<le> x \<Longrightarrow> a < y \<Longrightarrow> sqrt a < sqrt x + sqrt y"
proof -
  assume "0 \<le> x" "a < y"
  then have "sqrt a < sqrt y" "0 \<le> sqrt x" by simp_all
  then show ?thesis by linarith
qed

lemma piracanjuba_others:
  "\<forall>n \<in> set [''BelaVista'', ''ProfJamil'', ''CaldasNovas'', ''Cristianopolis''].
     \<exists>x y. calc_cartesian_distance exact_ops (Map exact_ops) ''Piracanjuba'' n = Inr x
          \<and> calc_cartesian_distance exact_ops (Map exact_ops) ''Formiga'' n = Inr y
          \<and> fl_less exact_ops
              (fl_add exact_ops
                 (fl_add exact_ops (sqrt ((-17.30 - (-17.65))\<^sup>2 + (-49.02 - (-49.08))\<^sup>2))
                    (fl_zero exact_ops)) 0)
              (fl_add exact_ops (fl_add exact_ops x (fl_zero exact_ops)) y)"
  apply (simp add: calc_cartesian_distance_def getitem_def Map_simps exact_ops_simps
      exact_square_small)
  apply (intro conjI sqrt_less_add; simp add: power2_eq_square)
  done

text \<open>Witness for C2, in exact arithmetic.\<close>

theorem search_twice_witness:
  "float_order exact_ops
   \<and> distances_defined exact_ops (Map exact_ops)
   \<and> calc_cartesian_distance exact_ops (Map exact_ops) ''Formiga'' ''Piracanjuba''
       = Inr (sqrt ((-17.65 - (-17.30))\<^sup>2 + (-49.08 - (-49.02))\<^sup>2))
   \<and> calc_cartesian_distance exact_ops (Map exact_ops) ''Piracanjuba'' ''Piracanjuba'' = Inr 0
   \<and> calc_cartesian_distance exact_ops (Map exact_ops) ''Piracanjuba'' ''Formiga''
       = Inr (sqrt ((-17.30 - (-17.65))\<^sup>2 + (-49.02 - (-49.08))\<^sup>2))
   \<and> calc_cartesian_distance exact_ops (Map exact_ops) ''Formiga'' ''Formiga'' = Inr 0
   \<and> list_all (\<lambda>n. \<exists>x y.
          calc_cartesian_distance exact_ops (Map exact_ops) ''Piracanjuba'' n = Inr x
        \<and> calc_cartesian_distance exact_ops (Map exact_ops) ''Formiga'' n = Inr y
        \<and> sqrt ((-17.30 - (-17.65))\<^sup>2 + (-49.02 - (-49.08))\<^sup>2) + 0 + 0 < x + 0 + y)
       [''BelaVista'', ''ProfJamil'', ''CaldasNovas'', ''Cristianopolis'']
   \<and> search exact_ops (Map exact_ops) init (Formiga exact_ops) (Piracanjuba exact_ops)
       = (Inr (Some \<lparr>cities_ids = [''Formiga'', ''Piracanjuba''],
                     cost = sqrt ((-17.65 - (-17.30))\<^sup>2 + (-49.08 - (-49.02))\<^sup>2) + 0,
                     evaluation = 0\<rparr>),
          \<lparr>fringe = [], visited = [''Formiga'']\<rparr>)
   \<and> fst (search exact_ops (Map exact_ops) init (Piracanjuba exact_ops) (Formiga exact_ops))
       = Inr (Some \<lparr>cities_ids = [''Piracanjuba'', ''Formiga''],
                     cost = sqrt ((-17.30 - (-17.65))\<^sup>2 + (-49.02 - (-49.08))\<^sup>2) + 0,
                     evaluation = 0\<rparr>)
   \<and> fst (search exact_ops (Map exact_ops)
            (snd (search exact_ops (Map exact_ops) init (Formiga exact_ops) (Piracanjuba exact_ops)))
            (Piracanjuba exact_ops) (Formiga exact_ops))
       = Inr None"
proof -
  have fp: "calc_cartesian_distance exact_ops (Map exact_ops) ''Formiga'' ''Piracanjuba''
       = Inr (sqrt ((-17.65 - (-17.30))\<^sup>2 + (-49.08 - (-49.02))\<^sup>2))"
    by (simp add: calc_cartesian_distance_def getitem_def Map_simps exact_ops_simps
        exact_square_small)
  have pp: "calc_cartesian_distance exact_ops (Map exact_ops) ''Piracanjuba'' ''Piracanjuba''
       = Inr 0"
    by (simp add: calc_cartesian_distance_def getitem_def Map_simps exact_ops_simps
        exact_square_small)
  have pf: "calc_cartesian_distance exact_ops (Map exact_ops) ''Piracanjuba'' ''Formiga''
       = Inr (sqrt ((-17.30 - (-17.65))\<^sup>2 + (-49.02 - (-49.08))\<^sup>2))"
    by (simp add: calc_cartesian_distance_def getitem_def Map_simps exact_ops_simps
        exact_square_small)
  have ff: "calc_cartesian_distance exact_ops (Map exact_ops) ''Formiga'' ''Formiga'' = Inr 0"
    by (simp add: calc_cartesian_distance_def getitem_def Map_simps exact_ops_simps
        exact_square_small)
  have la: "list_all (\<lambda>n. \<exists>x y.
          calc_cartesian_distance exact_ops (Map exact_ops) ''Piracanjuba'' n = Inr x
        \<and> calc_cartesian_distance exact_ops (Map exact_ops) ''Formiga'' n = Inr y
        \<and> sqrt ((-17.30 - (-17.65))\<^sup>2 + (-49.02 - (-49.08))\<^sup>2) + 0 + 0 < x + 0 + y)
       [''BelaVista'', ''ProfJamil'', ''CaldasNovas'', ''Cristianopolis'']"
    using piracanjuba_others unfolding list_all_iff by (simp only: exact_ops_simps)
  from search_twice [OF float_order_exact Map_distances fp pp pf ff piracanjuba_others]
  have "search exact_ops (Map exact_ops) init (Formiga exact_ops) (Piracanjuba exact_ops)
       = (Inr (Some \<lparr>cities_ids = [''Formiga'', ''Piracanjuba''],
                     cost = sqrt ((-17.65 - (-17.30))\<^sup>2 + (-49.08 - (-49.02))\<^sup>2) + 0,
                     evaluation = 0\<rparr>),
          \<lparr>fringe = [], visited = [''Formiga'']\<rparr>)
   \<and> fst (search exact_ops (Map exact_ops) init (Piracanjuba exact_ops) (Formiga exact_ops))
       = Inr (Some \<lparr>cities_ids = [''Piracanjuba'', ''Formiga''],
                     cost = sqrt ((-17.30 - (-17.65))\<^sup>2 + (-49.02 - (-49.08))\<^sup>2) + 0,
                     evaluation = 0\<rparr>)
   \<and> fst (search exact_ops (Map exact_ops)
            (snd (search exact_ops (Map exact_ops) init (Formiga exact_ops) (Piracanjuba exact_ops)))
            (Piracanjuba exact_ops) (Formiga exact_ops))
       = Inr None"
    unfolding exact_ops_simps .
  with float_order_exact Map_distances fp pp pf ff la show ?thesis by blast
qed

end
